theory Spec2Isabelle
  imports Main "HOL-Library.Word"
begin

unbundle bit_operations_syntax

section \<open>FIT converter: shallow embedding of fitconverter/fit_converter.py\<close>

text \<open>
  The converter works on a \<open>bytearray\<close>: a list of 8-bit words. Every other number of the
  source is an unbounded Python integer that never goes negative, modelled as \<open>nat\<close>.
\<close>

type_synonym byte = "8 word"
type_synonym bytes = "byte list"

subsection \<open>calculate_crc16\<close>

definition crc_table :: "nat list" where
  "crc_table =
    [0x0000, 0xCC01, 0xD801, 0x1400, 0xF001, 0x3C00, 0x2800, 0xE401,
     0xA001, 0x6C00, 0x7800, 0xB401, 0x5000, 0x9C01, 0x8801, 0x4400]"

text \<open>One pass of the body of \<open>for byte in data\<close>: low nibble, then high nibble.\<close>

definition crc_step :: "nat \<Rightarrow> byte \<Rightarrow> nat" where
  "crc_step crc0 b =
    (let byte = unat b;
         tmp = crc_table ! (crc0 AND 0xF);
         crc = (drop_bit 4 crc0) AND 0x0FFF;
         crc = crc XOR tmp XOR crc_table ! (byte AND 0xF);
         tmp = crc_table ! (crc AND 0xF);
         crc = (drop_bit 4 crc) AND 0x0FFF;
         crc = crc XOR tmp XOR crc_table ! ((drop_bit 4 byte) AND 0xF)
     in crc)"

definition calculate_crc16 :: "bytes \<Rightarrow> nat" where
  "calculate_crc16 data = foldl crc_step 0 data"

subsection \<open>struct.pack, struct.unpack, struct.pack_into\<close>

text \<open>
  Exceptions that can leave \<open>_modify_manufacturer_binary\<close>: the three
  \<open>FitConverterError\<close>s of the header validation, the \<open>IndexError\<close> of a read past the
  end of the bytearray, and \<open>struct.error\<close>.
\<close>

datatype py_exception =
    Invalid_too_short
  | Invalid_missing_signature
  | Invalid_header_too_short
  | IndexError
  | StructError

text \<open>
  \<open>convert_fit\<close> raises \<open>FitConverterError\<close> only: for empty input, and around
  every exception of \<open>_modify_manufacturer_binary\<close> (\<open>except Exception\<close>).
\<close>

datatype fit_converter_error =
    Data_empty
  | Failed_to_convert py_exception

definition unpack_H :: "bytes \<Rightarrow> nat \<Rightarrow> nat" where
  "unpack_H d off = unat (d ! off) + 256 * unat (d ! (off + 1))"

definition unpack_I :: "bytes \<Rightarrow> nat \<Rightarrow> nat" where
  "unpack_I d off =
     unat (d ! off) + 256 * unat (d ! (off + 1)) + 65536 * unat (d ! (off + 2))
       + 16777216 * unat (d ! (off + 3))"

definition pack_H :: "nat \<Rightarrow> bytes" where
  "pack_H v = [of_nat (v mod 256), of_nat (v div 256)]"

definition pack_I :: "nat \<Rightarrow> bytes" where
  "pack_I v =
     [of_nat (v mod 256), of_nat (v div 256 mod 256), of_nat (v div 65536 mod 256),
      of_nat (v div 16777216)]"

text \<open>
  \<open>struct.pack_into\<close> overwrites in place; it raises \<open>struct.error\<close> when the value
  does not fit the format or the buffer is too short for it.
\<close>

definition splice :: "bytes \<Rightarrow> nat \<Rightarrow> bytes \<Rightarrow> bytes" where
  "splice d off bs = take off d @ bs @ drop (off + length bs) d"

definition pack_into_H :: "bytes \<Rightarrow> nat \<Rightarrow> nat \<Rightarrow> py_exception + bytes" where
  "pack_into_H d off v =
     (if v < 65536 \<and> off + 2 \<le> length d then Inr (splice d off (pack_H v))
      else Inl StructError)"

definition pack_into_I :: "bytes \<Rightarrow> nat \<Rightarrow> nat \<Rightarrow> py_exception + bytes" where
  "pack_into_I d off v =
     (if v < 4294967296 \<and> off + 4 \<le> length d then Inr (splice d off (pack_I v))
      else Inl StructError)"

subsection \<open>The record scan\<close>

text \<open>A field definition is the tuple \<open>(field_def_num, field_size, field_type)\<close>.\<close>

type_synonym field_def = "nat \<times> nat \<times> nat"

record message_def =
  global_msg_num :: nat
  msg_fields :: "field_def list"

record scan_state =
  data :: bytes
  pos :: nat
  local_definitions :: "nat \<rightharpoonup> message_def"
  manufacturer_changed :: bool
  file_creator_found :: bool

text \<open>\<open>sum(field[1] for field in definition['fields'])\<close>\<close>

definition message_size :: "field_def list \<Rightarrow> nat" where
  "message_size fs = sum_list (map (\<lambda>f. fst (snd f)) fs)"

text \<open>
  Lines 172-180: \<open>for i in range(num_fields)\<close> of a definition record: stops (\<open>break\<close> of the
  \<open>for\<close> only) at the first triple that does not fit the buffer.
\<close>

fun read_fields :: "nat \<Rightarrow> bytes \<Rightarrow> nat \<Rightarrow> field_def list \<Rightarrow> field_def list \<times> nat" where
  "read_fields 0 d p acc = (acc, p)"
| "read_fields (Suc n) d p acc =
     (if p + 3 > length d then (acc, p)
      else read_fields n d (p + 3)
             (acc @ [(unat (d ! p), unat (d ! (p + 1)), unat (d ! (p + 2)))]))"

text \<open>
  Lines 218-265: the field loop of a \<open>file_id\<close> data record. \<open>p\<close> is \<open>pos\<close> (the first byte after the
  record header), \<open>off\<close> is \<open>field_offset\<close>. The guard at the head of the loop body
  keeps every write inside the buffer, so the one-byte store cannot raise.
\<close>

fun patch_file_id :: "field_def list \<Rightarrow> nat \<Rightarrow> nat \<Rightarrow> scan_state \<Rightarrow> py_exception + scan_state" where
  "patch_file_id [] p off s = Inr s"
| "patch_file_id ((field_def_num, field_size, field_type) # fs) p off s =
     (if p + off + field_size > length (data s) then Inr s
      else if field_def_num = 0 \<and> field_size = 1 then
        patch_file_id fs p (off + field_size) (s\<lparr>data := (data s)[p + off := 4]\<rparr>)
      else if field_def_num = 1 \<and> field_size = 2 then
        (case pack_into_H (data s) (p + off) 1 of
           Inl e \<Rightarrow> Inl e
         | Inr d \<Rightarrow> patch_file_id fs p (off + field_size)
                      (s\<lparr>data := d, manufacturer_changed := True\<rparr>))
      else if field_def_num = 2 \<and> field_size = 2 then
        (case pack_into_H (data s) (p + off) 3122 of
           Inl e \<Rightarrow> Inl e
         | Inr d \<Rightarrow> patch_file_id fs p (off + field_size) (s\<lparr>data := d\<rparr>))
      else if field_def_num = 4 \<and> field_size = 4 then
        patch_file_id fs p (off + field_size) s
      else patch_file_id fs p (off + field_size) s)"

text \<open>Lines 274-300: the field loop of a \<open>device_info\<close> data record.\<close>

fun patch_device_info :: "field_def list \<Rightarrow> nat \<Rightarrow> nat \<Rightarrow> scan_state \<Rightarrow> py_exception + scan_state" where
  "patch_device_info [] p off s = Inr s"
| "patch_device_info ((field_def_num, field_size, field_type) # fs) p off s =
     (if p + off + field_size > length (data s) then Inr s
      else if field_def_num = 2 \<and> field_size = 2 then
        (case pack_into_H (data s) (p + off) 1 of
           Inl e \<Rightarrow> Inl e
         | Inr d \<Rightarrow> patch_device_info fs p (off + field_size)
                      (s\<lparr>data := d, manufacturer_changed := True\<rparr>))
      else if field_def_num = 4 \<and> field_size = 2 then
        (case pack_into_H (data s) (p + off) 3122 of
           Inl e \<Rightarrow> Inl e
         | Inr d \<Rightarrow> patch_device_info fs p (off + field_size) (s\<lparr>data := d\<rparr>))
      else patch_device_info fs p (off + field_size) s)"

text \<open>How one pass of the \<open>while\<close> body ends.\<close>

datatype step_result = Continue scan_state | Break scan_state | Raise py_exception

text \<open>
  Lines 150-197: a definition record; \<open>p\<close> is \<open>pos\<close> after the header byte. A
  \<open>break\<close> leaves the loop with \<open>pos\<close> as far as it got.
\<close>

definition definition_record :: "byte \<Rightarrow> nat \<Rightarrow> scan_state \<Rightarrow> step_result" where
  "definition_record header_byte p s =
     (let d = data s; local_msg_type = unat (header_byte AND 0x0F) in
      if p + 4 \<ge> length d then Break (s\<lparr>pos := p\<rparr>)
      else
        let global = unpack_H d (p + 2);
            p = p + 4
        in if p \<ge> length d then Break (s\<lparr>pos := p\<rparr>)
           else
             let num_fields = unat (d ! p);
                 p = p + 1;
                 (fs, p) = read_fields num_fields d p [];
                 defs = (local_definitions s)
                          (local_msg_type \<mapsto> \<lparr>global_msg_num = global, msg_fields = fs\<rparr>)
             in Continue (s\<lparr>pos := p, local_definitions := defs,
                            file_creator_found :=
                              (if global = 0 then file_creator_found s
                               else if global = 23 then file_creator_found s
                               else if global = 49 then True
                               else file_creator_found s)\<rparr>))"

text \<open>
  Lines 199-312: a data record; \<open>p\<close> is \<open>pos\<close> after the header byte. The hex dump of a \<open>file_id\<close>
  record reads \<open>data[pos + i]\<close> for \<open>i < min(message_size, 16)\<close> and raises
  \<open>IndexError\<close> when one of these is past the end.
\<close>

definition data_record :: "byte \<Rightarrow> nat \<Rightarrow> scan_state \<Rightarrow> step_result" where
  "data_record header_byte p s =
     (let local_msg_type = unat (header_byte AND 0x0F) in
      case local_definitions s local_msg_type of
        None \<Rightarrow> Break (s\<lparr>pos := p\<rparr>)
      | Some definition \<Rightarrow>
          if global_msg_num definition = 0 then
            if p + min (message_size (msg_fields definition)) 16 > length (data s)
            then Raise IndexError
            else (case patch_file_id (msg_fields definition) p 0 s of
                    Inl e \<Rightarrow> Raise e
                  | Inr s' \<Rightarrow> Continue (s'\<lparr>pos := p + message_size (msg_fields definition)\<rparr>))
          else if global_msg_num definition = 23 then
            (case patch_device_info (msg_fields definition) p 0 s of
               Inl e \<Rightarrow> Raise e
             | Inr s' \<Rightarrow> Continue (s'\<lparr>pos := p + message_size (msg_fields definition)\<rparr>))
          else Continue (s\<lparr>pos := p + message_size (msg_fields definition)\<rparr>))"

text \<open>Lines 139-150: the body of the \<open>while\<close> loop, up to the kind of the record.\<close>

definition scan_record :: "scan_state \<Rightarrow> step_result" where
  "scan_record s =
     (if pos s \<ge> length (data s) then Break s
      else
        let header_byte = data s ! pos s;
            p = pos s + 1
        in if header_byte AND 0x80 = 0 \<and> header_byte AND 0x40 \<noteq> 0
           then definition_record header_byte p s
           else data_record header_byte p s)"


text \<open>
  A pass that continues leaves the buffer's length alone and moves \<open>pos\<close> forward:
  this is what bounds the \<open>while\<close> loop.
\<close>

lemma length_splice:
  "off + length bs \<le> length d \<Longrightarrow> length (splice d off bs) = length d"
  by (simp add: splice_def)

lemma pack_into_H_length:
  "pack_into_H d off v = Inr d' \<Longrightarrow> length d' = length d"
  by (auto simp: pack_into_H_def pack_H_def length_splice split: if_splits)

lemma pack_into_I_length:
  "pack_into_I d off v = Inr d' \<Longrightarrow> length d' = length d"
  by (auto simp: pack_into_I_def pack_I_def length_splice split: if_splits)

lemma patch_file_id_keeps:
  "patch_file_id fs p off s = Inr s' \<Longrightarrow>
     length (data s') = length (data s) \<and> pos s' = pos s
     \<and> local_definitions s' = local_definitions s
     \<and> file_creator_found s' = file_creator_found s"
proof (induction fs p off s rule: patch_file_id.induct)
  case (1 p off s)
  then show ?case by simp
next
  case (2 n sz ty fs p off s)
  then show ?case
    by (auto split: if_splits sum.splits dest!: pack_into_H_length)
qed

lemma patch_device_info_keeps:
  "patch_device_info fs p off s = Inr s' \<Longrightarrow>
     length (data s') = length (data s) \<and> pos s' = pos s
     \<and> local_definitions s' = local_definitions s
     \<and> file_creator_found s' = file_creator_found s"
proof (induction fs p off s rule: patch_device_info.induct)
  case (1 p off s)
  then show ?case by simp
next
  case (2 n sz ty fs p off s)
  then show ?case
    by (auto split: if_splits sum.splits dest!: pack_into_H_length)
qed

lemma read_fields_pos: "p \<le> snd (read_fields n d p acc)"
proof (induction n arbitrary: p acc)
  case 0
  then show ?case by simp
next
  case (Suc n)
  have "p + 3 \<le> snd (read_fields n d (p + 3) (acc @ [(unat (d ! p), unat (d ! (p + 1)), unat (d ! (p + 2)))]))"
    by (rule Suc.IH)
  then show ?case by simp
qed

lemma definition_record_Continue:
  assumes "definition_record h p s = Continue s'"
  shows "length (data s') = length (data s) \<and> p < pos s'"
proof -
  obtain fs q where rf: "read_fields (unat (data s ! (p + 4))) (data s) (p + 4 + 1) [] = (fs, q)"
    by (cases "read_fields (unat (data s ! (p + 4))) (data s) (p + 4 + 1) []") auto
  have "p + 4 + 1 \<le> q"
    using read_fields_pos [of "p + 4 + 1" "unat (data s ! (p + 4))" "data s" "[]"] rf by simp
  with assms rf show ?thesis
    by (auto simp: definition_record_def Let_def split: if_splits)
qed

lemma data_record_Continue:
  assumes "data_record h p s = Continue s'"
  shows "length (data s') = length (data s) \<and> p \<le> pos s'"
proof (cases "local_definitions s (unat (h AND 0x0F))")
  case None
  with assms show ?thesis by (simp add: data_record_def)
next
  case (Some df)
  with assms show ?thesis
    by (auto simp: data_record_def
      split: if_splits sum.splits
      dest!: patch_file_id_keeps patch_device_info_keeps)
qed

lemma scan_record_Continue:
  assumes "scan_record s = Continue s'"
  shows "length (data s') = length (data s) \<and> pos s < pos s'"
proof (cases "data s ! pos s AND 0x80 = 0 \<and> data s ! pos s AND 0x40 \<noteq> 0")
  case True
  with assms have "definition_record (data s ! pos s) (pos s + 1) s = Continue s'"
    by (simp add: scan_record_def Let_def split: if_splits)
  from definition_record_Continue [OF this] show ?thesis by simp
next
  case False
  with assms have "data_record (data s ! pos s) (pos s + 1) s = Continue s'"
    by (auto simp: scan_record_def Let_def split: if_splits)
  from data_record_Continue [OF this] show ?thesis by simp
qed

text \<open>
  Line 138: \<open>while pos < end_pos and pos < len(data)\<close>. The loop ends when its condition fails,
  at a \<open>break\<close>, or with the exception the body raised.
\<close>

function scan_loop :: "nat \<Rightarrow> scan_state \<Rightarrow> py_exception + scan_state" where
  "scan_loop end_pos s =
     (if pos s < end_pos \<and> pos s < length (data s) then
        (case scan_record s of
           Continue s' \<Rightarrow> scan_loop end_pos s'
         | Break s' \<Rightarrow> Inr s'
         | Raise e \<Rightarrow> Inl e)
      else Inr s)"
  by pat_completeness auto
termination
proof (relation "measure (\<lambda>(end_pos, s). length (data s) - pos s)")
  show "wf (measure (\<lambda>(end_pos, s). length (data s) - pos s))"
    by simp
next
  fix end_pos :: nat and s s' :: scan_state
  assume "pos s < end_pos \<and> pos s < length (data s)" and "scan_record s = Continue s'"
  then show "((end_pos, s'), (end_pos, s)) \<in> measure (\<lambda>(end_pos, s). length (data s) - pos s)"
    using scan_record_Continue [of s s'] by auto
qed

declare scan_loop.simps [simp del]

subsection \<open>_create_file_creator_message\<close>

definition create_file_creator_message :: bytes where
  "create_file_creator_message =
     [0x40 OR 7, 0x00, 0x00, 0x31, 0x00, 0x02]
     @ [0x00, 0x02, 0x84]
     @ [0x01, 0x01, 0x02]
     @ [0x07]
     @ pack_H 975
     @ [255]"

subsection \<open>_modify_manufacturer_binary and convert_fit\<close>

text \<open>The literal \<open>b'.FIT'\<close>.\<close>

definition fit_signature :: bytes where
  "fit_signature = [0x2E, 0x46, 0x49, 0x54]"

text \<open>Lines 113-123: the header is brought to protocol version 16, profile version 2134.\<close>

definition normalize_header :: "bytes \<Rightarrow> py_exception + bytes" where
  "normalize_header d =
     (let protocol_version = unat (d ! 1);
          profile_version = unpack_H d 2;
          d = (if protocol_version \<noteq> 16 then d[1 := 16] else d)
      in if profile_version \<noteq> 2134 then pack_into_H d 2 2134 else Inr d)"

text \<open>
  Lines 314-347, after the loop: splice the file_creator block in and rewrite the
  checksum, both only when a manufacturer field was patched.
\<close>

definition add_file_creator :: "nat \<Rightarrow> bytes \<Rightarrow> py_exception + bytes" where
  "add_file_creator data_size d =
     (let file_creator_data = create_file_creator_message;
          insert_pos = length d - 2;
          d = take insert_pos d @ file_creator_data @ drop insert_pos d;
          new_data_size = data_size + length file_creator_data
      in pack_into_I d 4 new_data_size)"

definition update_crc :: "bytes \<Rightarrow> py_exception + bytes" where
  "update_crc d =
     (if length d \<ge> 16 then
        let crc_data = take (length d - 2) d;
            new_crc = calculate_crc16 crc_data
        in pack_into_H d (length d - 2) new_crc
      else Inr d)"

definition finish :: "nat \<Rightarrow> scan_state \<Rightarrow> py_exception + bytes" where
  "finish data_size s =
     (if manufacturer_changed s then
        (case (if \<not> file_creator_found s then add_file_creator data_size (data s)
               else Inr (data s)) of
           Inl e \<Rightarrow> Inl e
         | Inr d \<Rightarrow> update_crc d)
      else Inr (data s))"

text \<open>The state in which the loop starts, from the buffer with its header normalized.\<close>

definition initial_state :: "bytes \<Rightarrow> nat \<Rightarrow> scan_state" where
  "initial_state d header_size =
     \<lparr>data = d, pos = header_size, local_definitions = Map.empty,
      manufacturer_changed = False, file_creator_found = False\<rparr>"

definition modify_manufacturer_binary :: "bytes \<Rightarrow> nat \<Rightarrow> py_exception + bytes" where
  "modify_manufacturer_binary fit_data new_manufacturer =
     (if length fit_data < 14 then Inl Invalid_too_short
      else if take 4 (drop 8 fit_data) \<noteq> fit_signature then Inl Invalid_missing_signature
      else
        let header_size = unat (fit_data ! 0) in
        if header_size < 12 then Inl Invalid_header_too_short
        else
          let data_size = unpack_I fit_data 4 in
          (case normalize_header fit_data of
             Inl e \<Rightarrow> Inl e
           | Inr d \<Rightarrow>
               (let end_pos = min (header_size + data_size) (length d - 2) in
                (case scan_loop end_pos (initial_state d header_size) of
                   Inl e \<Rightarrow> Inl e
                 | Inr s \<Rightarrow> finish data_size s))))"

text \<open>
  \<open>convert_fit\<close>, the public entry point (the spec's \<open>convert\<close>). Its argument is typed
  \<open>bytes\<close>, so the \<open>isinstance\<close> check cannot fail here; \<open>debug_output\<close> is unused.
\<close>

definition convert_fit :: "bytes \<Rightarrow> fit_converter_error + bytes" where
  "convert_fit fit_data =
     (if fit_data = [] then Inl Data_empty
      else case modify_manufacturer_binary fit_data 260 of
             Inl e \<Rightarrow> Inl (Failed_to_convert e)
           | Inr d \<Rightarrow> Inr d)"

section \<open>Properties\<close>

subsection \<open>Bytes and the checksum's range\<close>

lemma unat_byte_of_nat: "unat (of_nat n :: byte) = n mod 256"
  by (simp add: unat_of_nat)

lemma nth_splice_outside:
  "off + length bs \<le> length d \<Longrightarrow> i < off \<or> off + length bs \<le> i \<Longrightarrow> splice d off bs ! i = d ! i"
  by (auto simp: splice_def nth_append)

lemma nth_splice_inside:
  "off + length bs \<le> length d \<Longrightarrow> off \<le> i \<Longrightarrow> i < off + length bs \<Longrightarrow> splice d off bs ! i = bs ! (i - off)"
  by (auto simp: splice_def nth_append)

lemma unpack_H_pack:
  assumes "v < 65536" "off + 2 \<le> length d"
  shows "unpack_H (splice d off (pack_H v)) off = v"
proof -
  have len: "off + length (pack_H v) \<le> length d"
    using assms by (simp add: pack_H_def)
  have a: "splice d off (pack_H v) ! off = of_nat (v mod 256)"
    using nth_splice_inside [OF len, of off] by (simp add: pack_H_def)
  have b: "splice d off (pack_H v) ! Suc off = of_nat (v div 256)"
    using nth_splice_inside [OF len, of "Suc off"] by (simp add: pack_H_def)
  have "v div 256 mod 256 = v div 256" using assms by simp
  then show ?thesis
    by (simp add: unpack_H_def a b unat_byte_of_nat)
qed

lemma crc_table_bound: "k < 16 \<Longrightarrow> crc_table ! k < 65536"
proof -
  assume "k < 16"
  moreover have "length crc_table = 16"
    by (simp add: crc_table_def)
  ultimately have "crc_table ! k \<in> set crc_table"
    by (simp only: nth_mem)
  moreover have "\<forall>x \<in> set crc_table. x < 65536"
    by (simp add: crc_table_def)
  ultimately show ?thesis by blast
qed

lemma and_15_less: "(n::nat) AND 0xF < 16"
proof -
  have "n AND mask 4 = take_bit 4 n" by (simp add: take_bit_eq_mask)
  moreover have "mask 4 = (15::nat)" by (simp add: mask_eq_exp_minus_1)
  moreover have "take_bit 4 n < 2 ^ 4" by (rule take_bit_nat_less_exp)
  ultimately show ?thesis by simp
qed

lemma and_fff_less: "(n::nat) AND 0x0FFF < 65536"
proof -
  have "n AND mask 12 = take_bit 12 n" by (simp add: take_bit_eq_mask)
  moreover have "mask 12 = (4095::nat)" by (simp add: mask_eq_exp_minus_1)
  moreover have "take_bit 12 n < 2 ^ 12" by (rule take_bit_nat_less_exp)
  ultimately show ?thesis by simp
qed

lemma xor_less_65536:
  assumes "(a::nat) < 65536" "b < 65536"
  shows "a XOR b < 65536"
proof -
  have "take_bit 16 a = a" "take_bit 16 b = b"
    using assms by (simp_all add: take_bit_nat_eq_self_iff)
  then have "take_bit 16 (a XOR b) = a XOR b"
    by (simp add: take_bit_xor)
  then have "a XOR b < 2 ^ 16"
    by (simp only: take_bit_nat_eq_self_iff)
  then show ?thesis by simp
qed

lemma crc_step_bound: "crc_step c b < 65536"
  unfolding crc_step_def Let_def
  by (intro xor_less_65536 crc_table_bound and_15_less and_fff_less)

lemma foldl_crc_step_bound: "c < 65536 \<Longrightarrow> foldl crc_step c d < 65536"
  by (induction d arbitrary: c) (simp_all add: crc_step_bound)

lemma calculate_crc16_bound: "calculate_crc16 d < 65536"
  by (simp add: calculate_crc16_def foldl_crc_step_bound)

subsection \<open>The field loops as one guarded fold\<close>

text \<open>
  Both field loops have the same shape: a guard, a write that depends on the field alone,
  and the running offset. \<open>field_write g f q\<close> is the write of the loop for global
  message number \<open>g\<close> (0 or 23) for field \<open>f\<close> found at absolute position \<open>q\<close>.
\<close>

definition field_write :: "nat \<Rightarrow> field_def \<Rightarrow> nat \<Rightarrow> scan_state \<Rightarrow> scan_state" where
  "field_write g f q s =
     (case f of (n, sz, ty) \<Rightarrow>
        if g = 0 then
          (if n = 0 \<and> sz = 1 then s\<lparr>data := (data s)[q := 4]\<rparr>
           else if n = 1 \<and> sz = 2 then
             s\<lparr>data := splice (data s) q (pack_H 1), manufacturer_changed := True\<rparr>
           else if n = 2 \<and> sz = 2 then s\<lparr>data := splice (data s) q (pack_H 3122)\<rparr>
           else s)
        else
          (if n = 2 \<and> sz = 2 then
             s\<lparr>data := splice (data s) q (pack_H 1), manufacturer_changed := True\<rparr>
           else if n = 4 \<and> sz = 2 then s\<lparr>data := splice (data s) q (pack_H 3122)\<rparr>
           else s))"

fun patch_fields :: "nat \<Rightarrow> field_def list \<Rightarrow> nat \<Rightarrow> nat \<Rightarrow> scan_state \<Rightarrow> scan_state" where
  "patch_fields g [] p off s = s"
| "patch_fields g (f # fs) p off s =
     (if p + off + fst (snd f) > length (data s) then s
      else patch_fields g fs p (off + fst (snd f)) (field_write g f (p + off) s))"

text \<open>The fields a loop rewrites, by (field number, size), and where field \<open>k\<close> starts.\<close>

definition target :: "nat \<Rightarrow> field_def \<Rightarrow> bool" where
  "target g f =
     (if g = 0 then (fst f = 0 \<and> fst (snd f) = 1) \<or> (fst f = 1 \<and> fst (snd f) = 2)
                    \<or> (fst f = 2 \<and> fst (snd f) = 2)
      else (fst f = 2 \<and> fst (snd f) = 2) \<or> (fst f = 4 \<and> fst (snd f) = 2))"

definition field_offset :: "field_def list \<Rightarrow> nat \<Rightarrow> nat" where
  "field_offset fs k = message_size (take k fs)"

lemma pack_into_H_ok:
  "v < 65536 \<Longrightarrow> off + 2 \<le> length d \<Longrightarrow> pack_into_H d off v = Inr (splice d off (pack_H v))"
  by (simp add: pack_into_H_def)

lemma patch_file_id_eq: "patch_file_id fs p off s = Inr (patch_fields 0 fs p off s)"
proof (induction fs p off s rule: patch_file_id.induct)
  case (1 p off s)
  show ?case by simp
next
  case (2 n sz ty fs p off s)
  show ?case
  proof (cases "p + off + sz > length (data s)")
    case True
    then show ?thesis by simp
  next
    case False
    then show ?thesis
      using "2" by (auto simp: field_write_def pack_into_H_ok)
  qed
qed

lemma patch_device_info_eq: "patch_device_info fs p off s = Inr (patch_fields 23 fs p off s)"
proof (induction fs p off s rule: patch_device_info.induct)
  case (1 p off s)
  show ?case by simp
next
  case (2 n sz ty fs p off s)
  show ?case
  proof (cases "p + off + sz > length (data s)")
    case True
    then show ?thesis by simp
  next
    case False
    then show ?thesis
      using "2" by (auto simp: field_write_def pack_into_H_ok)
  qed
qed

lemma message_size_Nil [simp]: "message_size [] = 0"
  by (simp add: message_size_def)

lemma message_size_Cons [simp]: "message_size (f # fs) = fst (snd f) + message_size fs"
  by (simp add: message_size_def)

lemma field_offset_0 [simp]: "field_offset fs 0 = 0"
  by (simp add: field_offset_def)

lemma field_offset_Suc [simp]:
  "field_offset (f # fs) (Suc k) = fst (snd f) + field_offset fs k"
  by (simp add: field_offset_def)

lemma field_offset_le: "k < length fs \<Longrightarrow> field_offset fs k + fst (snd (fs ! k)) \<le> message_size fs"
proof (induction fs arbitrary: k)
  case Nil
  then show ?case by simp
next
  case (Cons f fs)
  then show ?case by (cases k) auto
qed

lemma splice_changes:
  assumes "off + length bs \<le> length d" and "splice d off bs ! i \<noteq> d ! i"
  shows "off \<le> i \<and> i < off + length bs"
proof (rule ccontr)
  assume "\<not> (off \<le> i \<and> i < off + length bs)"
  then have "i < off \<or> off + length bs \<le> i" by arith
  from nth_splice_outside [OF assms(1) this] assms(2) show False by simp
qed

text \<open>What one write keeps, where it writes, and what it leaves there.\<close>

lemma field_write_keeps:
  assumes "q + fst (snd f) \<le> length (data s)"
  shows "length (data (field_write g f q s)) = length (data s)"
    and "pos (field_write g f q s) = pos s"
    and "local_definitions (field_write g f q s) = local_definitions s"
    and "file_creator_found (field_write g f q s) = file_creator_found s"
  using assms
  by (auto simp: field_write_def length_splice pack_H_def split: prod.splits)

lemma field_write_changes:
  assumes "q + fst (snd f) \<le> length (data s)"
    and "data (field_write g f q s) ! i \<noteq> data s ! i"
  shows "target g f \<and> q \<le> i \<and> i < q + fst (snd f)"
proof -
  obtain n sz ty where f: "f = (n, sz, ty)" by (cases f)
  have sp: "splice (data s) q (pack_H v) ! i \<noteq> data s ! i \<Longrightarrow> sz = 2 \<Longrightarrow> q \<le> i \<and> i < q + 2" for v
    using splice_changes [of q "pack_H v" "data s" i] assms(1) f
    by (simp add: pack_H_def)
  have up: "(data s)[q := 4] ! i \<noteq> data s ! i \<Longrightarrow> i = q"
    by (metis nth_list_update_neq)
  from assms(2) show ?thesis
    unfolding f field_write_def target_def
    by (auto split: if_splits dest: sp up)
qed

lemma field_write_manufacturer:
  "manufacturer_changed (field_write g f q s) \<longleftrightarrow>
     manufacturer_changed s \<or> (g = 0 \<and> fst f = 1 \<and> fst (snd f) = 2)
       \<or> (g \<noteq> 0 \<and> fst f = 2 \<and> fst (snd f) = 2)"
  by (auto simp: field_write_def split: prod.splits)

lemma field_write_values:
  assumes "q + fst (snd f) \<le> length (data s)"
  shows "g = 0 \<Longrightarrow> fst f = 0 \<Longrightarrow> fst (snd f) = 1 \<Longrightarrow> data (field_write g f q s) ! q = 4"
    and "g = 0 \<Longrightarrow> fst f = 1 \<Longrightarrow> fst (snd f) = 2 \<Longrightarrow> unpack_H (data (field_write g f q s)) q = 1"
    and "g = 0 \<Longrightarrow> fst f = 2 \<Longrightarrow> fst (snd f) = 2 \<Longrightarrow> unpack_H (data (field_write g f q s)) q = 3122"
    and "g \<noteq> 0 \<Longrightarrow> fst f = 2 \<Longrightarrow> fst (snd f) = 2 \<Longrightarrow> unpack_H (data (field_write g f q s)) q = 1"
    and "g \<noteq> 0 \<Longrightarrow> fst f = 4 \<Longrightarrow> fst (snd f) = 2 \<Longrightarrow> unpack_H (data (field_write g f q s)) q = 3122"
  using assms
  by (auto simp: field_write_def unpack_H_pack split: prod.splits)

lemma patch_fields_keeps:
  "length (data (patch_fields g fs p off s)) = length (data s)
   \<and> pos (patch_fields g fs p off s) = pos s
   \<and> local_definitions (patch_fields g fs p off s) = local_definitions s
   \<and> file_creator_found (patch_fields g fs p off s) = file_creator_found s"
proof (induction fs arbitrary: off s)
  case Nil
  show ?case by simp
next
  case (Cons f fs)
  show ?case
  proof (cases "p + off + fst (snd f) > length (data s)")
    case True
    then show ?thesis by simp
  next
    case False
    then have "p + off + fst (snd f) \<le> length (data s)" by simp
    from field_write_keeps [OF this, of g] Cons [of "off + fst (snd f)" "field_write g f (p + off) s"]
    show ?thesis using False by simp
  qed
qed

text \<open>
  A byte that a field loop changes lies inside a rewritten field, at that field's
  cumulative offset, and the field fits the buffer.
\<close>

lemma patch_fields_changes:
  assumes "data (patch_fields g fs p off s) ! i \<noteq> data s ! i"
  shows "\<exists>k < length fs. target g (fs ! k)
           \<and> p + off + field_offset fs k \<le> i
           \<and> i < p + off + field_offset fs k + fst (snd (fs ! k))"
  using assms
proof (induction fs arbitrary: off s)
  case Nil
  then show ?case by simp
next
  case (Cons f fs)
  let ?s1 = "field_write g f (p + off) s"
  from Cons.prems have fits: "p + off + fst (snd f) \<le> length (data s)"
    by (cases "p + off + fst (snd f) > length (data s)") auto
  then have res: "patch_fields g (f # fs) p off s = patch_fields g fs p (off + fst (snd f)) ?s1"
    by simp
  show ?case
  proof (cases "data ?s1 ! i = data s ! i")
    case True
    with Cons.prems res have "data (patch_fields g fs p (off + fst (snd f)) ?s1) ! i \<noteq> data ?s1 ! i"
      by simp
    from Cons.IH [OF this] obtain k where k: "k < length fs" "target g (fs ! k)"
      "p + (off + fst (snd f)) + field_offset fs k \<le> i"
      "i < p + (off + fst (snd f)) + field_offset fs k + fst (snd (fs ! k))"
      by blast
    then have "Suc k < length (f # fs) \<and> target g ((f # fs) ! Suc k)
        \<and> p + off + field_offset (f # fs) (Suc k) \<le> i
        \<and> i < p + off + field_offset (f # fs) (Suc k) + fst (snd ((f # fs) ! Suc k))"
      by simp
    then show ?thesis by blast
  next
    case False
    from field_write_changes [OF fits False]
    have "0 < length (f # fs) \<and> target g ((f # fs) ! 0)
        \<and> p + off + field_offset (f # fs) 0 \<le> i
        \<and> i < p + off + field_offset (f # fs) 0 + fst (snd ((f # fs) ! 0))"
      by simp
    then show ?thesis by blast
  qed
qed

lemma patch_fields_frame:
  assumes "i < p + off \<or> p + off + message_size fs \<le> i"
  shows "data (patch_fields g fs p off s) ! i = data s ! i"
proof (rule ccontr)
  assume "data (patch_fields g fs p off s) ! i \<noteq> data s ! i"
  from patch_fields_changes [OF this] obtain k where k: "k < length fs"
    "p + off + field_offset fs k \<le> i" "i < p + off + field_offset fs k + fst (snd (fs ! k))"
    by blast
  from field_offset_le [OF k(1)] k(2,3) assms show False by arith
qed

text \<open>A rewritten field that fits the buffer holds its constant after the loop.\<close>

lemma patch_fields_values:
  assumes "k < length fs"
    and "p + off + field_offset fs k + fst (snd (fs ! k)) \<le> length (data s)"
  shows "(g = 0 \<and> fst (fs ! k) = 0 \<and> fst (snd (fs ! k)) = 1 \<longrightarrow>
            data (patch_fields g fs p off s) ! (p + off + field_offset fs k) = 4)
       \<and> (g = 0 \<and> fst (fs ! k) = 1 \<and> fst (snd (fs ! k)) = 2 \<longrightarrow>
            unpack_H (data (patch_fields g fs p off s)) (p + off + field_offset fs k) = 1)
       \<and> (g = 0 \<and> fst (fs ! k) = 2 \<and> fst (snd (fs ! k)) = 2 \<longrightarrow>
            unpack_H (data (patch_fields g fs p off s)) (p + off + field_offset fs k) = 3122)
       \<and> (g \<noteq> 0 \<and> fst (fs ! k) = 2 \<and> fst (snd (fs ! k)) = 2 \<longrightarrow>
            unpack_H (data (patch_fields g fs p off s)) (p + off + field_offset fs k) = 1)
       \<and> (g \<noteq> 0 \<and> fst (fs ! k) = 4 \<and> fst (snd (fs ! k)) = 2 \<longrightarrow>
            unpack_H (data (patch_fields g fs p off s)) (p + off + field_offset fs k) = 3122)"
  using assms
proof (induction fs arbitrary: k off s)
  case Nil
  then show ?case by simp
next
  case (Cons f fs)
  let ?s1 = "field_write g f (p + off) s"
  let ?q = "p + off"
  have fits: "?q + fst (snd f) \<le> length (data s)"
    using Cons.prems by (cases k) auto
  then have res: "patch_fields g (f # fs) p off s = patch_fields g fs p (off + fst (snd f)) ?s1"
    by simp
  have len1: "length (data ?s1) = length (data s)"
    by (rule field_write_keeps [OF fits])
  show ?case
  proof (cases k)
    case 0
    have same: "data (patch_fields g fs p (off + fst (snd f)) ?s1) ! i = data ?s1 ! i"
      if "i < ?q + fst (snd f)" for i
      using that patch_fields_frame [of i p "off + fst (snd f)" fs g ?s1] by simp
    have b: "data (patch_fields g (f # fs) p off s) ! ?q = data ?s1 ! ?q" if "fst (snd f) = 1"
      using same [of ?q] that res by simp
    have w: "unpack_H (data (patch_fields g (f # fs) p off s)) ?q = unpack_H (data ?s1) ?q"
      if "fst (snd f) = 2"
      using same [of ?q] same [of "?q + 1"] that res by (simp add: unpack_H_def)
    show ?thesis
      using 0 b w field_write_values [OF fits, of g] by auto
  next
    case (Suc k')
    with Cons.prems have "k' < length fs"
      and "p + (off + fst (snd f)) + field_offset fs k' + fst (snd (fs ! k')) \<le> length (data ?s1)"
      by (simp_all add: len1 add.assoc)
    from Cons.IH [OF this] show ?thesis
      using Suc fits by (simp add: add.assoc)
  qed
qed

lemma patch_fields_manufacturer:
  "manufacturer_changed s \<Longrightarrow> manufacturer_changed (patch_fields g fs p off s)"
  by (induction fs arbitrary: off s) (simp_all add: field_write_manufacturer)

lemma patch_fields_manufacturer_new:
  assumes "manufacturer_changed (patch_fields g fs p off s)" "\<not> manufacturer_changed s"
  shows "p + 2 \<le> length (data s)"
  using assms
proof (induction fs arbitrary: off s)
  case Nil
  then show ?case by simp
next
  case (Cons f fs)
  let ?s1 = "field_write g f (p + off) s"
  from Cons.prems have fits: "p + off + fst (snd f) \<le> length (data s)"
    by (cases "p + off + fst (snd f) > length (data s)") auto
  show ?case
  proof (cases "manufacturer_changed ?s1")
    case True
    with Cons.prems(2) have "fst (snd f) = 2"
      by (auto simp: field_write_manufacturer)
    with fits show ?thesis by simp
  next
    case False
    from Cons.prems(1) fits have "manufacturer_changed (patch_fields g fs p (off + fst (snd f)) ?s1)"
      by simp
    from Cons.IH [OF this False] field_write_keeps(1) [OF fits, of g] show ?thesis by simp
  qed
qed

subsection \<open>One record\<close>

text \<open>The test of line 150: bit 7 clear and bit 6 set.\<close>

definition definition_header :: "byte \<Rightarrow> bool" where
  "definition_header h = (h AND 0x80 = 0 \<and> h AND 0x40 \<noteq> 0)"

text \<open>The definition bound to the local message type of the record at \<open>pos\<close>.\<close>

definition bound_definition :: "scan_state \<Rightarrow> message_def option" where
  "bound_definition s = local_definitions s (unat (data s ! pos s AND 0x0F))"

lemma scan_record_data:
  assumes "pos s < length (data s)" "\<not> definition_header (data s ! pos s)"
  shows "scan_record s =
     (case bound_definition s of
        None \<Rightarrow> Break (s\<lparr>pos := pos s + 1\<rparr>)
      | Some df \<Rightarrow>
          if global_msg_num df = 0 then
            if pos s + 1 + min (message_size (msg_fields df)) 16 > length (data s)
            then Raise IndexError
            else Continue ((patch_fields 0 (msg_fields df) (pos s + 1) 0 s)
                             \<lparr>pos := pos s + 1 + message_size (msg_fields df)\<rparr>)
          else if global_msg_num df = 23 then
            Continue ((patch_fields 23 (msg_fields df) (pos s + 1) 0 s)
                        \<lparr>pos := pos s + 1 + message_size (msg_fields df)\<rparr>)
          else Continue (s\<lparr>pos := pos s + 1 + message_size (msg_fields df)\<rparr>))"
proof -
  have "scan_record s = data_record (data s ! pos s) (pos s + 1) s"
    using assms by (auto simp: scan_record_def definition_header_def Let_def)
  then show ?thesis
    by (simp add: data_record_def bound_definition_def patch_file_id_eq patch_device_info_eq
        Let_def split: option.splits)
qed

lemma scan_record_definition:
  assumes "pos s < length (data s)" "definition_header (data s ! pos s)"
  shows "scan_record s = definition_record (data s ! pos s) (pos s + 1) s"
  using assms by (simp add: scan_record_def definition_header_def Let_def)

lemma definition_record_data:
  "definition_record h p s = Continue s' \<or> definition_record h p s = Break s' \<Longrightarrow>
     data s' = data s \<and> manufacturer_changed s' = manufacturer_changed s"
  by (auto simp: definition_record_def Let_def split: if_splits prod.splits)

text \<open>
  A record that lets the scan go on changes only bytes between its header and the next
  record, and only inside a rewritten field of a \<open>file_id\<close> or \<open>device_info\<close> record.
\<close>

lemma scan_record_changes:
  assumes "scan_record s = Continue s'" and "data s' ! i \<noteq> data s ! i"
  shows "\<not> definition_header (data s ! pos s) \<and>
     (\<exists>df k. bound_definition s = Some df
        \<and> (global_msg_num df = 0 \<or> global_msg_num df = 23)
        \<and> k < length (msg_fields df) \<and> target (global_msg_num df) (msg_fields df ! k)
        \<and> pos s + 1 + field_offset (msg_fields df) k \<le> i
        \<and> i < pos s + 1 + field_offset (msg_fields df) k + fst (snd (msg_fields df ! k)))"
proof -
  from assms(1) have lt: "pos s < length (data s)"
    by (auto simp: scan_record_def split: if_splits)
  show ?thesis
  proof (cases "definition_header (data s ! pos s)")
    case True
    with assms(1) lt have "definition_record (data s ! pos s) (pos s + 1) s = Continue s'"
      by (simp add: scan_record_definition)
    then have "data s' = data s"
      using definition_record_data by blast
    with assms(2) show ?thesis by simp
  next
    case False
    note sr = scan_record_data [OF lt False]
    from assms(1) sr obtain df where df: "bound_definition s = Some df"
      by (cases "bound_definition s") auto
    show ?thesis
    proof (cases "global_msg_num df = 0 \<or> global_msg_num df = 23")
      case False
      with assms(1) sr df have "data s' = data s" by auto
      with assms(2) show ?thesis by simp
    next
      case True
      with assms(1) sr df
      have "data s' = data (patch_fields (global_msg_num df) (msg_fields df) (pos s + 1) 0 s)"
        by (auto split: if_splits)
      with assms(2) have "data (patch_fields (global_msg_num df) (msg_fields df) (pos s + 1) 0 s) ! i
          \<noteq> data s ! i" by simp
      from patch_fields_changes [OF this] True df False show ?thesis
        by auto
    qed
  qed
qed

lemma scan_record_frame:
  assumes "scan_record s = Continue s'" and "i \<le> pos s \<or> pos s' \<le> i"
  shows "data s' ! i = data s ! i"
proof (rule ccontr)
  assume neq: "data s' ! i \<noteq> data s ! i"
  from scan_record_changes [OF assms(1) neq] obtain df k where
    nd: "\<not> definition_header (data s ! pos s)" and df: "bound_definition s = Some df"
    and g: "global_msg_num df = 0 \<or> global_msg_num df = 23"
    and k: "k < length (msg_fields df)" "pos s + 1 + field_offset (msg_fields df) k \<le> i"
      "i < pos s + 1 + field_offset (msg_fields df) k + fst (snd (msg_fields df ! k))"
    by blast
  from assms(1) have lt: "pos s < length (data s)"
    by (auto simp: scan_record_def split: if_splits)
  from assms(1) scan_record_data [OF lt nd] df g
  have "pos s' = pos s + 1 + message_size (msg_fields df)"
    by (auto split: if_splits)
  with field_offset_le [OF k(1)] k(2,3) assms(2) show False by arith
qed

lemma scan_record_Break:
  assumes "scan_record s = Break s'"
  shows "data s' = data s \<and> manufacturer_changed s' = manufacturer_changed s
           \<and> file_creator_found s' = file_creator_found s \<and> pos s \<le> pos s'"
proof (cases "pos s < length (data s)")
  case False
  with assms show ?thesis by (simp add: scan_record_def)
next
  case lt: True
  show ?thesis
  proof (cases "definition_header (data s ! pos s)")
    case True
    with assms lt show ?thesis
      by (auto simp: scan_record_definition definition_record_def Let_def
          split: if_splits prod.splits)
  next
    case False
    with assms lt show ?thesis
      by (auto simp: scan_record_data split: option.splits if_splits)
  qed
qed

subsection \<open>The loop\<close>

lemma scan_loop_stop:
  "\<not> (pos s < end_pos \<and> pos s < length (data s)) \<Longrightarrow> scan_loop end_pos s = Inr s"
  by (auto simp: scan_loop.simps [of end_pos s])

lemma scan_loop_Continue:
  "pos s < end_pos \<Longrightarrow> pos s < length (data s) \<Longrightarrow> scan_record s = Continue s' \<Longrightarrow>
     scan_loop end_pos s = scan_loop end_pos s'"
  by (simp add: scan_loop.simps [of end_pos s])

lemma scan_loop_Break:
  "pos s < end_pos \<Longrightarrow> pos s < length (data s) \<Longrightarrow> scan_record s = Break s' \<Longrightarrow>
     scan_loop end_pos s = Inr s'"
  by (simp add: scan_loop.simps [of end_pos s])

lemma scan_loop_Raise:
  "pos s < end_pos \<Longrightarrow> pos s < length (data s) \<Longrightarrow> scan_record s = Raise e \<Longrightarrow>
     scan_loop end_pos s = Inl e"
  by (simp add: scan_loop.simps [of end_pos s])

text \<open>
  The state after \<open>n\<close> more records, when the loop gets that far: the states the scan
  passes through.
\<close>

fun scan_steps :: "nat \<Rightarrow> nat \<Rightarrow> scan_state \<Rightarrow> scan_state option" where
  "scan_steps 0 end_pos s = Some s"
| "scan_steps (Suc n) end_pos s =
     (if pos s < end_pos \<and> pos s < length (data s) then
        (case scan_record s of
           Continue s' \<Rightarrow> scan_steps n end_pos s'
         | Break s' \<Rightarrow> None
         | Raise e \<Rightarrow> None)
      else None)"

lemma scan_steps_loop:
  "scan_steps n end_pos s = Some s' \<Longrightarrow> scan_loop end_pos s = scan_loop end_pos s'"
proof (induction n arbitrary: s)
  case 0
  then show ?case by simp
next
  case (Suc n)
  then show ?case
    by (auto split: if_splits step_result.splits simp: scan_loop_Continue)
qed

lemma scan_steps_Suc_end:
  "scan_steps n end_pos s = Some s1 \<Longrightarrow> pos s1 < end_pos \<Longrightarrow> pos s1 < length (data s1) \<Longrightarrow>
     scan_record s1 = Continue s2 \<Longrightarrow> scan_steps (Suc n) end_pos s = Some s2"
proof (induction n arbitrary: s)
  case 0
  then show ?case by simp
next
  case (Suc n)
  from Suc.prems(1) obtain s' where a: "pos s < end_pos" "pos s < length (data s)"
    "scan_record s = Continue s'" "scan_steps n end_pos s' = Some s1"
    by (auto split: if_splits step_result.splits)
  from Suc.IH [OF a(4) Suc.prems(2,3,4)] a(1,2,3) show ?case by simp
qed

text \<open>Writes stay behind the cursor: what lies at or after \<open>pos\<close> is still the input.\<close>

lemma scan_steps_keeps:
  "scan_steps n end_pos s = Some s' \<Longrightarrow>
     length (data s') = length (data s) \<and> pos s \<le> pos s'
     \<and> (\<forall>i. i \<le> pos s \<or> pos s' \<le> i \<longrightarrow> data s' ! i = data s ! i)"
proof (induction n arbitrary: s)
  case 0
  then show ?case by simp
next
  case (Suc n)
  from Suc.prems obtain s1 where a: "scan_record s = Continue s1" "scan_steps n end_pos s1 = Some s'"
    by (auto split: if_splits step_result.splits)
  from scan_record_Continue [OF a(1)] have b: "length (data s1) = length (data s)" "pos s < pos s1"
    by simp_all
  from Suc.IH [OF a(2)] have c: "length (data s') = length (data s1)" "pos s1 \<le> pos s'"
    "\<And>i. i \<le> pos s1 \<or> pos s' \<le> i \<Longrightarrow> data s' ! i = data s1 ! i"
    by auto
  have "data s' ! i = data s ! i" if "i \<le> pos s \<or> pos s' \<le> i" for i
  proof -
    from that b(2) c(2) have "i \<le> pos s1 \<or> pos s' \<le> i" and "i \<le> pos s \<or> pos s1 \<le> i"
      by arith+
    then show ?thesis
      using c(3) [of i] scan_record_frame [OF a(1), of i] by simp
  qed
  with b c show ?case by simp
qed

text \<open>What the finished loop keeps: the length, and every byte up to where it started.\<close>

lemma scan_loop_keeps:
  "scan_loop end_pos s = Inr t \<Longrightarrow>
     length (data t) = length (data s) \<and> pos s \<le> pos t
     \<and> (\<forall>i \<le> pos s. data t ! i = data s ! i)"
proof (induction end_pos s rule: scan_loop.induct)
  case (1 end_pos s)
  show ?case
  proof (cases "pos s < end_pos \<and> pos s < length (data s)")
    case False
    with "1.prems" show ?thesis by (simp add: scan_loop_stop)
  next
    case True
    show ?thesis
    proof (cases "scan_record s")
      case (Continue s1)
      with True "1.prems" have "scan_loop end_pos s1 = Inr t"
        by (simp add: scan_loop_Continue)
      from "1.IH" [OF True Continue this] scan_record_Continue [OF Continue]
        scan_record_frame [OF Continue]
      show ?thesis by auto
    next
      case (Break s1)
      with True "1.prems" have "t = s1" by (simp add: scan_loop_Break)
      with scan_record_Break [OF Break] show ?thesis by simp
    next
      case (Raise e)
      with True "1.prems" show ?thesis by (simp add: scan_loop_Raise)
    qed
  qed
qed

text \<open>
  A byte the loop changed was changed by one of the records it passed, inside a
  rewritten field of that record.
\<close>

lemma scan_loop_changes:
  "scan_loop end_pos s = Inr t \<Longrightarrow> data t ! i \<noteq> data s ! i \<Longrightarrow>
     \<exists>n s' df k. scan_steps n end_pos s = Some s'
        \<and> pos s' < end_pos \<and> pos s' < length (data s')
        \<and> \<not> definition_header (data s' ! pos s')
        \<and> bound_definition s' = Some df
        \<and> (global_msg_num df = 0 \<or> global_msg_num df = 23)
        \<and> k < length (msg_fields df) \<and> target (global_msg_num df) (msg_fields df ! k)
        \<and> pos s' + 1 + field_offset (msg_fields df) k \<le> i
        \<and> i < pos s' + 1 + field_offset (msg_fields df) k + fst (snd (msg_fields df ! k))"
proof (induction end_pos s rule: scan_loop.induct)
  case (1 end_pos s)
  show ?case
  proof (cases "pos s < end_pos \<and> pos s < length (data s)")
    case False
    with "1.prems" show ?thesis by (simp add: scan_loop_stop)
  next
    case True
    show ?thesis
    proof (cases "scan_record s")
      case (Continue s1)
      with True "1.prems" have t: "scan_loop end_pos s1 = Inr t"
        by (simp add: scan_loop_Continue)
      show ?thesis
      proof (cases "data s1 ! i = data s ! i")
        case False
        from scan_record_changes [OF Continue False] True
        have "\<exists>df k. scan_steps 0 end_pos s = Some s
          \<and> pos s < end_pos \<and> pos s < length (data s)
          \<and> \<not> definition_header (data s ! pos s)
          \<and> bound_definition s = Some df
          \<and> (global_msg_num df = 0 \<or> global_msg_num df = 23)
          \<and> k < length (msg_fields df) \<and> target (global_msg_num df) (msg_fields df ! k)
          \<and> pos s + 1 + field_offset (msg_fields df) k \<le> i
          \<and> i < pos s + 1 + field_offset (msg_fields df) k + fst (snd (msg_fields df ! k))"
          by auto
        then show ?thesis by blast
      next
        case same: True
        with "1.prems"(2) have "data t ! i \<noteq> data s1 ! i" by simp
        from "1.IH" [OF True Continue t this] obtain n s' df k where
          h: "scan_steps n end_pos s1 = Some s'"
          "pos s' < end_pos \<and> pos s' < length (data s')
          \<and> \<not> definition_header (data s' ! pos s')
          \<and> bound_definition s' = Some df
          \<and> (global_msg_num df = 0 \<or> global_msg_num df = 23)
          \<and> k < length (msg_fields df) \<and> target (global_msg_num df) (msg_fields df ! k)
          \<and> pos s' + 1 + field_offset (msg_fields df) k \<le> i
          \<and> i < pos s' + 1 + field_offset (msg_fields df) k + fst (snd (msg_fields df ! k))"
          by blast
        from h(1) True Continue have "scan_steps (Suc n) end_pos s = Some s'" by simp
        with h(2) show ?thesis by blast
      qed
    next
      case (Break s1)
      with True "1.prems" have "t = s1" by (simp add: scan_loop_Break)
      with scan_record_Break [OF Break] "1.prems"(2) show ?thesis by simp
    next
      case (Raise e)
      with True "1.prems" show ?thesis by (simp add: scan_loop_Raise)
    qed
  qed
qed

subsection \<open>After the loop\<close>

lemma take_splice: "n \<le> off \<Longrightarrow> off \<le> length d \<Longrightarrow> take n (splice d off bs) = take n d"
  by (simp add: splice_def)

lemma drop_splice:
  assumes "off + length bs \<le> n" "off + length bs \<le> length d"
  shows "drop n (splice d off bs) = drop n d"
proof -
  have "length (take off d) = off" using assms by simp
  moreover have "n - off - length bs + (off + length bs) = n" using assms by simp
  ultimately show ?thesis
    using assms by (simp add: splice_def)
qed

lemma update_crc_result:
  assumes "update_crc d = Inr y"
  shows "length y = length d"
    and "\<forall>i < length d - 2. y ! i = d ! i"
    and "16 \<le> length d \<longrightarrow> calculate_crc16 (take (length y - 2) y) = unpack_H y (length y - 2)"
    and "length d < 16 \<longrightarrow> y = d"
proof -
  let ?c = "calculate_crc16 (take (length d - 2) d)"
  have c: "?c < 65536" by (rule calculate_crc16_bound)
  show "length d < 16 \<longrightarrow> y = d"
    using assms by (auto simp: update_crc_def)
  show "length y = length d"
    using assms c by (auto simp: update_crc_def Let_def dest: pack_into_H_length split: if_splits)
  show "\<forall>i < length d - 2. y ! i = d ! i"
  proof (cases "16 \<le> length d")
    case False
    with assms show ?thesis by (simp add: update_crc_def)
  next
    case True
    then have fit: "length d - 2 + 2 \<le> length d" by simp
    with assms True c have y: "y = splice d (length d - 2) (pack_H ?c)"
      by (simp add: update_crc_def Let_def pack_into_H_ok)
    show ?thesis
      using nth_splice_outside [of "length d - 2" "pack_H ?c" d] fit
      by (simp add: y pack_H_def)
  qed
  show "16 \<le> length d \<longrightarrow> calculate_crc16 (take (length y - 2) y) = unpack_H y (length y - 2)"
  proof
    assume True: "16 \<le> length d"
    then have fit: "length d - 2 + 2 \<le> length d" by simp
    with assms True c have y: "y = splice d (length d - 2) (pack_H ?c)"
      by (simp add: update_crc_def Let_def pack_into_H_ok)
    have len: "length y = length d"
      using fit by (simp add: y length_splice pack_H_def)
    have "take (length d - 2) y = take (length d - 2) d"
      by (simp add: y take_splice)
    moreover have "unpack_H y (length d - 2) = ?c"
      unfolding y by (rule unpack_H_pack [OF c fit])
    ultimately show "calculate_crc16 (take (length y - 2) y) = unpack_H y (length y - 2)"
      by (simp add: len)
  qed
qed

lemma length_create_file_creator_message: "length create_file_creator_message = 16"
  by (simp add: create_file_creator_message_def pack_H_def)

lemma unpack_I_pack:
  assumes "v < 4294967296" "off + 4 \<le> length d"
  shows "unpack_I (splice d off (pack_I v)) off = v"
proof -
  have len: "off + length (pack_I v) \<le> length d"
    using assms by (simp add: pack_I_def)
  have a: "splice d off (pack_I v) ! off = of_nat (v mod 256)"
    using nth_splice_inside [OF len, of off] by (simp add: pack_I_def)
  have b: "splice d off (pack_I v) ! Suc off = of_nat (v div 256 mod 256)"
    using nth_splice_inside [OF len, of "Suc off"] by (simp add: pack_I_def)
  have c: "splice d off (pack_I v) ! Suc (Suc off) = of_nat (v div 65536 mod 256)"
    using nth_splice_inside [OF len, of "Suc (Suc off)"] by (simp add: pack_I_def)
  have e: "splice d off (pack_I v) ! Suc (Suc (Suc off)) = of_nat (v div 16777216)"
    using nth_splice_inside [OF len, of "Suc (Suc (Suc off))"] by (simp add: pack_I_def)
  have "v div 16777216 mod 256 = v div 16777216" using assms by simp
  moreover have "v = v mod 256 + 256 * (v div 256 mod 256) + 65536 * (v div 65536 mod 256)
      + 16777216 * (v div 16777216)"
  proof -
    have b: "v div 65536 = v div 256 div 256" and c: "v div 16777216 = v div 256 div 256 div 256"
      by (simp_all add: div_mult2_eq)
    have "v = v mod 256 + 256 * (v div 256)"
      and "v div 256 = v div 256 mod 256 + 256 * (v div 256 div 256)"
      and "v div 256 div 256 = v div 256 div 256 mod 256 + 256 * (v div 256 div 256 div 256)"
      by simp_all
    then show ?thesis unfolding b c by arith
  qed
  ultimately show ?thesis
    by (simp add: unpack_I_def a b c e unat_byte_of_nat numeral_3_eq_3 numeral_2_eq_2)
qed

lemma add_file_creator_result:
  assumes "add_file_creator data_size d = Inr y" and "14 \<le> length d"
  shows "length y = length d + 16"
    and "data_size + 16 < 4294967296"
    and "unpack_I y 4 = data_size + 16"
    and "\<forall>i < length d - 2. i < 4 \<or> 8 \<le> i \<longrightarrow> y ! i = d ! i"
    and "take 16 (drop (length d - 2) y) = create_file_creator_message"
    and "drop (length d + 14) y = drop (length d - 2) d"
proof -
  let ?fc = create_file_creator_message
  let ?d1 = "take (length d - 2) d @ ?fc @ drop (length d - 2) d"
  have l1: "length ?d1 = length d + 16"
    using assms(2) by (simp add: length_create_file_creator_message)
  from assms(1) show ok: "data_size + 16 < 4294967296"
    by (simp add: add_file_creator_def Let_def pack_into_I_def
        length_create_file_creator_message split: if_splits)
  have fit: "4 + 4 \<le> length ?d1" using l1 assms(2) by simp
  from assms(1) ok fit have y: "y = splice ?d1 4 (pack_I (data_size + 16))"
    by (simp add: add_file_creator_def Let_def pack_into_I_def
        length_create_file_creator_message split: if_splits)
  have fitI: "4 + length (pack_I (data_size + 16)) \<le> length ?d1"
    using fit by (simp add: pack_I_def)
  show "length y = length d + 16"
    using fitI l1 by (simp add: y length_splice)
  show "unpack_I y 4 = data_size + 16"
    unfolding y by (rule unpack_I_pack [OF ok fit])
  have out: "y ! i = ?d1 ! i" if "i < 4 \<or> 8 \<le> i" for i
    unfolding y using nth_splice_outside [OF fitI, of i] that by (simp add: pack_I_def)
  show "\<forall>i < length d - 2. i < 4 \<or> 8 \<le> i \<longrightarrow> y ! i = d ! i"
    using out by (simp add: nth_append)
  have dr: "drop (length d - 2) y = drop (length d - 2) ?d1"
    unfolding y using assms(2) fitI by (intro drop_splice) (simp_all add: pack_I_def)
  then show "take 16 (drop (length d - 2) y) = ?fc"
    using assms(2) by (simp add: length_create_file_creator_message)
  have "drop (length d + 14) y = drop 16 (drop (length d - 2) y)"
    using assms(2) by (simp add: add.commute)
  then show "drop (length d + 14) y = drop (length d - 2) d"
    using assms(2) by (simp add: dr length_create_file_creator_message)
qed

text \<open>
  What \<open>finish\<close> returns, for a buffer long enough to hold a header and a checksum.
\<close>

lemma finish_unchanged:
  "\<not> manufacturer_changed s \<Longrightarrow> finish data_size s = Inr (data s)"
  by (simp add: finish_def)

lemma finish_result:
  assumes "finish data_size s = Inr y" and "14 \<le> length (data s)"
  shows "length y = (if manufacturer_changed s \<and> \<not> file_creator_found s
                      then length (data s) + 16 else length (data s))"
    and "\<forall>i < length (data s) - 2. i < 4 \<or> 8 \<le> i \<longrightarrow> y ! i = data s ! i"
    and "manufacturer_changed s \<and> \<not> file_creator_found s \<longrightarrow>
           data_size + 16 < 4294967296 \<and> unpack_I y 4 = data_size + 16
           \<and> take 16 (drop (length (data s) - 2) y) = create_file_creator_message"
    and "\<not> (manufacturer_changed s \<and> \<not> file_creator_found s) \<longrightarrow>
           (\<forall>i < length (data s) - 2. y ! i = data s ! i)"
    and "manufacturer_changed s \<and> 16 \<le> length y \<longrightarrow>
           calculate_crc16 (take (length y - 2) y) = unpack_H y (length y - 2)"
proof -
  let ?L = "length (data s)"
  consider (none) "\<not> manufacturer_changed s"
    | (crc) "manufacturer_changed s" "file_creator_found s"
    | (add) "manufacturer_changed s" "\<not> file_creator_found s"
    by blast
  then have "length y = (if manufacturer_changed s \<and> \<not> file_creator_found s
                      then ?L + 16 else ?L)
    \<and> (\<forall>i < ?L - 2. i < 4 \<or> 8 \<le> i \<longrightarrow> y ! i = data s ! i)
    \<and> (manufacturer_changed s \<and> \<not> file_creator_found s \<longrightarrow>
           data_size + 16 < 4294967296 \<and> unpack_I y 4 = data_size + 16
           \<and> take 16 (drop (?L - 2) y) = create_file_creator_message)
    \<and> (\<not> (manufacturer_changed s \<and> \<not> file_creator_found s) \<longrightarrow>
           (\<forall>i < ?L - 2. y ! i = data s ! i))
    \<and> (manufacturer_changed s \<and> 16 \<le> length y \<longrightarrow>
           calculate_crc16 (take (length y - 2) y) = unpack_H y (length y - 2))"
  proof cases
    case none
    with assms(1) have "y = data s" by (simp add: finish_def)
    with none show ?thesis by simp
  next
    case crc
    with assms(1) have u: "update_crc (data s) = Inr y" by (simp add: finish_def)
    from update_crc_result [OF u] crc show ?thesis by auto
  next
    case add
    with assms(1) obtain d where d: "add_file_creator data_size (data s) = Inr d"
      and u: "update_crc d = Inr y"
      by (auto simp: finish_def split: sum.splits)
    note a = add_file_creator_result [OF d assms(2)]
    note c = update_crc_result [OF u]
    have len: "length y = ?L + 16" using a(1) c(1) by simp
    have pre: "y ! i = d ! i" if "i < ?L + 14" for i
      using c(2) that a(1) by simp
    have "y ! i = data s ! i" if "i < ?L - 2" "i < 4 \<or> 8 \<le> i" for i
      using pre [of i] a(4) that by simp
    moreover have "unpack_I y 4 = data_size + 16"
      using pre [of 4] pre [of 5] pre [of 6] pre [of 7] a(3) assms(2)
      by (simp add: unpack_I_def)
    moreover have "take 16 (drop (?L - 2) y) = create_file_creator_message"
    proof -
      have "take 16 (drop (?L - 2) y) = take 16 (drop (?L - 2) d)"
      proof (rule nth_equalityI)
        show "length (take 16 (drop (?L - 2) y)) = length (take 16 (drop (?L - 2) d))"
          using len a(1) by simp
      next
        fix i assume "i < length (take 16 (drop (?L - 2) y))"
        then have i: "i < 16" by simp
        then have "?L - 2 + i < ?L + 14" using assms(2) by arith
        from pre [OF this] i show "take 16 (drop (?L - 2) y) ! i = take 16 (drop (?L - 2) d) ! i"
          using len a(1) assms(2) by simp
      qed
      with a(5) show ?thesis by simp
    qed
    moreover have "calculate_crc16 (take (length y - 2) y) = unpack_H y (length y - 2)"
      using c(3) a(1) assms(2) by simp
    ultimately show ?thesis using add len a(2) by simp
  qed
  then show "length y = (if manufacturer_changed s \<and> \<not> file_creator_found s
                      then length (data s) + 16 else length (data s))"
    and "\<forall>i < length (data s) - 2. i < 4 \<or> 8 \<le> i \<longrightarrow> y ! i = data s ! i"
    and "manufacturer_changed s \<and> \<not> file_creator_found s \<longrightarrow>
           data_size + 16 < 4294967296 \<and> unpack_I y 4 = data_size + 16
           \<and> take 16 (drop (length (data s) - 2) y) = create_file_creator_message"
    and "\<not> (manufacturer_changed s \<and> \<not> file_creator_found s) \<longrightarrow>
           (\<forall>i < length (data s) - 2. y ! i = data s ! i)"
    and "manufacturer_changed s \<and> 16 \<le> length y \<longrightarrow>
           calculate_crc16 (take (length y - 2) y) = unpack_H y (length y - 2)"
    by blast+
qed

text \<open>\<open>finish\<close> fails only when the new payload size does not fit 32 bits.\<close>

lemma finish_ok:
  assumes "14 \<le> length (data s)"
    and "manufacturer_changed s \<and> \<not> file_creator_found s \<longrightarrow> data_size + 16 < 4294967296"
  shows "\<exists>y. finish data_size s = Inr y"
proof -
  have u: "\<exists>y. update_crc d = Inr y" for d
    using calculate_crc16_bound [of "take (length d - 2) d"]
    by (auto simp: update_crc_def Let_def pack_into_H_def)
  show ?thesis
  proof (cases "manufacturer_changed s \<and> \<not> file_creator_found s")
    case True
    with assms have "\<exists>d. add_file_creator data_size (data s) = Inr d"
      by (simp add: add_file_creator_def Let_def pack_into_I_def
          length_create_file_creator_message)
    then obtain d where "add_file_creator data_size (data s) = Inr d" by blast
    with True u [of d] show ?thesis by (simp add: finish_def)
  next
    case False
    with u [of "data s"] show ?thesis by (auto simp: finish_def)
  qed
qed

lemma finish_overflow:
  assumes "manufacturer_changed s" "\<not> file_creator_found s"
    and "\<not> data_size + 16 < 4294967296"
  shows "finish data_size s = Inl StructError"
  using assms
  by (simp add: finish_def add_file_creator_def Let_def pack_into_I_def
      length_create_file_creator_message)

subsection \<open>The whole conversion\<close>

text \<open>The three checks of lines 96-106, and the scan they lead to.\<close>

definition valid_header :: "bytes \<Rightarrow> bool" where
  "valid_header x =
     (14 \<le> length x \<and> take 4 (drop 8 x) = fit_signature \<and> 12 \<le> unat (x ! 0))"

definition end_pos_of :: "bytes \<Rightarrow> nat" where
  "end_pos_of x = min (unat (x ! 0) + unpack_I x 4) (length x - 2)"

definition start_state :: "bytes \<Rightarrow> scan_state" where
  "start_state x =
     initial_state (case normalize_header x of Inl e \<Rightarrow> x | Inr d \<Rightarrow> d) (unat (x ! 0))"

text \<open>The state in which the loop of \<open>convert_fit x\<close> ends, when it ends without raising.\<close>

definition scan_of :: "bytes \<Rightarrow> py_exception + scan_state" where
  "scan_of x = scan_loop (end_pos_of x) (start_state x)"

lemma normalize_header_result:
  assumes "4 \<le> length x"
  shows "\<exists>d. normalize_header x = Inr d \<and> length d = length x
           \<and> unat (d ! 1) = 16 \<and> unpack_H d 2 = 2134
           \<and> (\<forall>i. i = 0 \<or> 4 \<le> i \<longrightarrow> d ! i = x ! i)"
proof -
  define x1 where "x1 = (if unat (x ! 1) \<noteq> 16 then x[1 := 16] else x)"
  have l1: "length x1 = length x" by (simp add: x1_def)
  have b1: "unat (x1 ! 1) = 16" using assms by (simp add: x1_def)
  have o1: "x1 ! i = x ! i" if "i \<noteq> 1" for i using that by (simp add: x1_def)
  have u1: "unpack_H x1 2 = unpack_H x 2" by (simp add: unpack_H_def o1)
  have n: "normalize_header x = (if unpack_H x 2 \<noteq> 2134 then pack_into_H x1 2 2134 else Inr x1)"
    by (simp add: normalize_header_def Let_def x1_def)
  show ?thesis
  proof (cases "unpack_H x 2 = 2134")
    case True
    with n l1 b1 o1 u1 show ?thesis by simp
  next
    case False
    have fit: "2 + 2 \<le> length x1" using assms l1 by simp
    have fitl: "2 + length (pack_H 2134) \<le> length x1" using fit by (simp add: pack_H_def)
    let ?d = "splice x1 2 (pack_H 2134)"
    have "normalize_header x = Inr ?d"
      using False n fit by (simp add: pack_into_H_ok)
    moreover have "length ?d = length x"
      using fitl l1 by (simp add: length_splice)
    moreover have "unpack_H ?d 2 = 2134"
      by (rule unpack_H_pack [OF _ fit]) simp
    moreover have "?d ! i = x1 ! i" if "i < 2 \<or> 4 \<le> i" for i
      using nth_splice_outside [OF fitl, of i] that by (simp add: pack_H_def)
    then have "unat (?d ! 1) = 16" and "\<forall>i. i = 0 \<or> 4 \<le> i \<longrightarrow> ?d ! i = x ! i"
      using b1 o1 by auto
    ultimately show ?thesis by blast
  qed
qed

lemma start_state_facts:
  assumes "4 \<le> length x"
  shows "normalize_header x = Inr (data (start_state x))"
    and "length (data (start_state x)) = length x"
    and "unat (data (start_state x) ! 1) = 16"
    and "unpack_H (data (start_state x)) 2 = 2134"
    and "\<forall>i. i = 0 \<or> 4 \<le> i \<longrightarrow> data (start_state x) ! i = x ! i"
    and "pos (start_state x) = unat (x ! 0)"
    and "local_definitions (start_state x) = Map.empty"
    and "\<not> manufacturer_changed (start_state x)"
    and "\<not> file_creator_found (start_state x)"
  using normalize_header_result [OF assms]
  by (auto simp: start_state_def initial_state_def)

text \<open>\<open>convert_fit\<close> on a valid header: the scan, then \<open>finish\<close>.\<close>

lemma convert_fit_valid:
  assumes "valid_header x"
  shows "convert_fit x =
     (case scan_of x of
        Inl e \<Rightarrow> Inl (Failed_to_convert e)
      | Inr s \<Rightarrow> (case finish (unpack_I x 4) s of
                    Inl e \<Rightarrow> Inl (Failed_to_convert e)
                  | Inr y \<Rightarrow> Inr y))"
proof -
  from assms have len: "14 \<le> length x" by (simp add: valid_header_def)
  then have l4: "4 \<le> length x" by simp
  note st = start_state_facts [OF l4]
  have ne: "x \<noteq> []" using len by auto
  from normalize_header_result [OF l4] obtain d where d: "normalize_header x = Inr d"
    "length d = length x" by blast
  then have ss: "start_state x = initial_state d (unat (x ! 0))"
    by (simp add: start_state_def)
  have "modify_manufacturer_binary x 260 =
      (case scan_of x of Inl e \<Rightarrow> Inl e | Inr s \<Rightarrow> finish (unpack_I x 4) s)"
    using assms d
    by (simp add: modify_manufacturer_binary_def valid_header_def Let_def scan_of_def
        end_pos_of_def ss)
  then show ?thesis
    using ne by (simp add: convert_fit_def split: sum.splits)
qed

lemma convert_fit_invalid:
  assumes "\<not> valid_header x"
  shows "convert_fit x = Inl Data_empty
       \<or> convert_fit x = Inl (Failed_to_convert Invalid_too_short)
       \<or> convert_fit x = Inl (Failed_to_convert Invalid_missing_signature)
       \<or> convert_fit x = Inl (Failed_to_convert Invalid_header_too_short)"
  using assms
  by (auto simp: convert_fit_def modify_manufacturer_binary_def valid_header_def Let_def)

lemma convert_fit_Inr:
  assumes "convert_fit x = Inr y"
  shows "valid_header x \<and> (\<exists>t. scan_of x = Inr t \<and> finish (unpack_I x 4) t = Inr y)"
proof -
  have v: "valid_header x"
    using convert_fit_invalid [of x] assms by auto
  with assms show ?thesis
    by (auto simp: convert_fit_valid split: sum.splits)
qed

lemma scan_of_keeps:
  assumes "valid_header x" "scan_of x = Inr t"
  shows "length (data t) = length x"
    and "\<forall>i \<le> 12. data t ! i = data (start_state x) ! i"
proof -
  from assms(1) have l4: "4 \<le> length x" and h: "12 \<le> unat (x ! 0)"
    by (simp_all add: valid_header_def)
  note st = start_state_facts [OF l4]
  from scan_loop_keeps [OF assms(2) [unfolded scan_of_def]] st(2,6) h
  show "length (data t) = length x" and "\<forall>i \<le> 12. data t ! i = data (start_state x) ! i"
    by auto
qed

subsection \<open>Concrete files\<close>

text \<open>
  Equations that let the simplifier run the model on a literal buffer: recursion on a
  numeral count or index, unfolded one step at a time.
\<close>

lemma read_fields_unfold:
  "read_fields n d p acc =
     (if n = 0 then (acc, p)
      else if p + 3 > length d then (acc, p)
      else read_fields (n - 1) d (p + 3)
             (acc @ [(unat (d ! p), unat (d ! (p + 1)), unat (d ! (p + 2)))]))"
  by (cases n) simp_all

lemma list_update_unfold:
  "(x # xs)[i := v] = (if i = 0 then v # xs else x # xs[i - 1 := v])"
  by (cases i) simp_all

lemma scan_steps_unfold:
  "scan_steps n end_pos s =
     (if n = 0 then Some s
      else if pos s < end_pos \<and> pos s < length (data s) then
        (case scan_record s of
           Continue s' \<Rightarrow> scan_steps (n - 1) end_pos s'
         | Break s' \<Rightarrow> None
         | Raise e \<Rightarrow> None)
      else None)"
  by (cases n) (auto split: step_result.splits)

lemmas run_simps =
  convert_fit_def modify_manufacturer_binary_def normalize_header_def initial_state_def
  finish_def add_file_creator_def update_crc_def create_file_creator_message_def
  fit_signature_def scan_loop.simps scan_record_def definition_record_def data_record_def
  message_size_def pack_into_H_def pack_into_I_def pack_H_def pack_I_def splice_def
  unpack_H_def unpack_I_def calculate_crc16_def crc_step_def crc_table_def Let_def
  read_fields_unfold list_update_unfold

text \<open>
  The smallest activity file with a \<open>file_id\<close> message: a 12-byte header, a definition
  of local type 0 for global message 0 with the fields type, manufacturer and product,
  one data record (type 0, manufacturer 32, product 0), and two checksum bytes.
\<close>

definition file_id_only :: bytes where
  "file_id_only =
     [12, 0, 0, 0, 21, 0, 0, 0, 0x2E, 0x46, 0x49, 0x54,
      0x40, 0, 0, 0, 0, 3, 0, 1, 0, 1, 2, 0x84, 2, 2, 0x84,
      0x00, 0, 32, 0, 0, 0,
      0, 0]"

definition file_id_only_converted :: bytes where
  "file_id_only_converted =
     [12, 16, 86, 8, 37, 0, 0, 0, 46, 70, 73, 84,
      64, 0, 0, 0, 0, 3, 0, 1, 0, 1, 2, 132, 2, 2, 132,
      0, 4, 1, 0, 50, 12,
      71, 0, 0, 49, 0, 2, 0, 2, 132, 1, 1, 2, 7, 207, 3, 255,
      36, 175]"

lemma convert_file_id_only: "convert_fit file_id_only = Inr file_id_only_converted"
  by (simp add: file_id_only_def file_id_only_converted_def run_simps del: read_fields.simps)

text \<open>
  A 12-byte header alone (protocol version 2.0, profile version 100, empty payload),
  followed by its correct checksum 10535.
\<close>

definition header_only :: bytes where
  "header_only = [12, 32, 100, 0, 0, 0, 0, 0, 0x2E, 0x46, 0x49, 0x54, 39, 41]"

definition header_only_converted :: bytes where
  "header_only_converted = [12, 16, 86, 8, 0, 0, 0, 0, 46, 70, 73, 84, 39, 41]"

lemma convert_header_only: "convert_fit header_only = Inr header_only_converted"
  by (simp add: header_only_def header_only_converted_def run_simps del: read_fields.simps)

section \<open>The claims\<close>

text \<open>
  C8. An input shorter than 14 bytes, or whose bytes 8-11 are not \<open>.FIT\<close>, or whose
  byte 0 (header_size) is below 12, makes \<open>convert_fit\<close> raise \<open>FitConverterError\<close>: it
  returns no bytes. The error is the one for empty input, or the wrapper around one of the
  three header errors.
\<close>

theorem malformed_input_fails:
  assumes "length x < 14 \<or> take 4 (drop 8 x) \<noteq> fit_signature \<or> unat (x ! 0) < 12"
  shows "convert_fit x = Inl Data_empty
       \<or> convert_fit x = Inl (Failed_to_convert Invalid_too_short)
       \<or> convert_fit x = Inl (Failed_to_convert Invalid_missing_signature)
       \<or> convert_fit x = Inl (Failed_to_convert Invalid_header_too_short)"
proof -
  from assms have "\<not> valid_header x"
    by (auto simp: valid_header_def)
  then show ?thesis by (rule convert_fit_invalid)
qed

definition bad_signature :: bytes where
  "bad_signature = [12, 16, 86, 8, 0, 0, 0, 0, 0x2E, 0x46, 0x49, 0x55, 0, 0]"

theorem malformed_input_fails_witness:
  "take 4 (drop 8 bad_signature) \<noteq> fit_signature
   \<and> convert_fit bad_signature = Inl (Failed_to_convert Invalid_missing_signature)"
proof -
  have h: "take 4 (drop 8 bad_signature) \<noteq> fit_signature"
    by (simp add: bad_signature_def fit_signature_def)
  then have "length bad_signature < 14 \<or> take 4 (drop 8 bad_signature) \<noteq> fit_signature
      \<or> unat (bad_signature ! 0) < 12" by simp
  from malformed_input_fails [OF this] h show ?thesis
    by (simp add: convert_fit_def modify_manufacturer_binary_def bad_signature_def)
qed

text \<open>
  C6. Whenever \<open>convert_fit\<close> returns a buffer, its byte 1 (protocol_version) is 16 and
  its bytes 2-3 (profile_version, little-endian) read 2134.
\<close>

theorem header_normalized:
  assumes "convert_fit x = Inr y"
  shows "unat (y ! 1) = 16 \<and> unpack_H y 2 = 2134"
proof -
  from convert_fit_Inr [OF assms] obtain t where v: "valid_header x"
    and t: "scan_of x = Inr t" and f: "finish (unpack_I x 4) t = Inr y"
    by blast
  from v have len: "14 \<le> length x" by (simp add: valid_header_def)
  then have l4: "4 \<le> length x" by simp
  note st = start_state_facts [OF l4]
  note k = scan_of_keeps [OF v t]
  from k(1) len have lt: "14 \<le> length (data t)" by simp
  have "y ! i = data (start_state x) ! i" if "i < 4" for i
  proof -
    from that lt have "i < length (data t) - 2" by arith
    with finish_result(2) [OF f lt] that have "y ! i = data t ! i" by simp
    with k(2) that show ?thesis by simp
  qed
  from this [of 1] this [of 2] this [of 3] st(3,4) show ?thesis
    by (simp add: unpack_H_def)
qed

theorem header_normalized_witness:
  "convert_fit file_id_only = Inr file_id_only_converted
   \<and> unat (file_id_only_converted ! 1) = 16 \<and> unpack_H file_id_only_converted 2 = 2134"
  using header_normalized [OF convert_file_id_only] convert_file_id_only by simp

subsection \<open>What the loop maintains\<close>

text \<open>
  A definition can only be stored from a record that leaves at least five bytes after its
  header, and a manufacturer field can only be patched through a stored definition: a
  buffer in which either happened is at least 18 bytes long.
\<close>

definition scan_inv :: "scan_state \<Rightarrow> bool" where
  "scan_inv s =
     (12 \<le> pos s
      \<and> (local_definitions s \<noteq> Map.empty \<longrightarrow> 18 \<le> length (data s))
      \<and> (manufacturer_changed s \<longrightarrow> local_definitions s \<noteq> Map.empty))"

lemma scan_record_Break_defs:
  assumes "scan_record s = Break s'"
  shows "local_definitions s' = local_definitions s"
proof (cases "pos s < length (data s)")
  case False
  with assms show ?thesis by (simp add: scan_record_def)
next
  case lt: True
  show ?thesis
  proof (cases "definition_header (data s ! pos s)")
    case True
    with assms lt show ?thesis
      by (auto simp: scan_record_definition definition_record_def Let_def
          split: if_splits prod.splits)
  next
    case False
    with assms lt show ?thesis
      by (auto simp: scan_record_data split: option.splits if_splits)
  qed
qed

lemma scan_record_inv:
  assumes "scan_inv s" and "scan_record s = Continue s'"
  shows "scan_inv s'"
proof -
  from assms(2) have lt: "pos s < length (data s)"
    by (auto simp: scan_record_def split: if_splits)
  note c = scan_record_Continue [OF assms(2)]
  show ?thesis
  proof (cases "definition_header (data s ! pos s)")
    case True
    with assms(2) lt have d: "definition_record (data s ! pos s) (pos s + 1) s = Continue s'"
      by (simp add: scan_record_definition)
    then have "pos s + 1 + 4 < length (data s)" and "local_definitions s' \<noteq> Map.empty"
      by (auto simp: definition_record_def Let_def split: if_splits prod.splits)
    moreover from definition_record_data d
    have "manufacturer_changed s' = manufacturer_changed s" by blast
    ultimately show ?thesis
      using assms(1) c by (auto simp: scan_inv_def)
  next
    case False
    note sr = scan_record_data [OF lt False]
    from assms(2) sr obtain df where df: "bound_definition s = Some df"
      by (cases "bound_definition s") auto
    then have ne: "local_definitions s \<noteq> Map.empty"
      by (auto simp: bound_definition_def)
    from assms(2) sr df have "local_definitions s' = local_definitions s"
      by (auto simp: patch_fields_keeps split: if_splits)
    with ne assms(1) c show ?thesis
      by (auto simp: scan_inv_def)
  qed
qed

lemma scan_loop_inv:
  "scan_inv s \<Longrightarrow> scan_loop end_pos s = Inr t \<Longrightarrow> scan_inv t"
proof (induction end_pos s rule: scan_loop.induct)
  case (1 end_pos s)
  show ?case
  proof (cases "pos s < end_pos \<and> pos s < length (data s)")
    case False
    with "1.prems" show ?thesis by (simp add: scan_loop_stop)
  next
    case True
    show ?thesis
    proof (cases "scan_record s")
      case (Continue s1)
      with True "1.prems" have "scan_loop end_pos s1 = Inr t"
        by (simp add: scan_loop_Continue)
      from "1.IH" [OF True Continue scan_record_inv [OF "1.prems"(1) Continue] this]
      show ?thesis .
    next
      case (Break s1)
      with True "1.prems" have "t = s1" by (simp add: scan_loop_Break)
      with scan_record_Break [OF Break] scan_record_Break_defs [OF Break] "1.prems"(1)
      show ?thesis by (auto simp: scan_inv_def)
    next
      case (Raise e)
      with True "1.prems" show ?thesis by (simp add: scan_loop_Raise)
    qed
  qed
qed

lemma scan_steps_inv:
  "scan_inv s \<Longrightarrow> scan_steps n end_pos s = Some s' \<Longrightarrow> scan_inv s'"
proof (induction n arbitrary: s)
  case 0
  then show ?case by simp
next
  case (Suc n)
  from Suc.prems(2) obtain s1 where a: "scan_record s = Continue s1"
    "scan_steps n end_pos s1 = Some s'"
    by (auto split: if_splits step_result.splits)
  from Suc.IH [OF scan_record_inv [OF Suc.prems(1) a(1)] a(2)] show ?case .
qed

lemma start_state_inv: "valid_header x \<Longrightarrow> scan_inv (start_state x)"
  by (simp add: scan_inv_def start_state_def initial_state_def valid_header_def)

lemma scan_of_patched_length:
  assumes "valid_header x" "scan_of x = Inr t" "manufacturer_changed t"
  shows "18 \<le> length x"
proof -
  from scan_loop_inv [OF start_state_inv [OF assms(1)] assms(2) [unfolded scan_of_def]] assms(3)
  have "18 \<le> length (data t)" by (simp add: scan_inv_def)
  with scan_of_keeps(1) [OF assms(1,2)] show ?thesis by simp
qed

text \<open>
  C1. As stated the claim fails: when no manufacturer field is patched the header is
  still normalized but the checksum is not recomputed. \<open>header_only\<close> carries the right
  checksum 10535 for its bytes; after conversion bytes 1-3 differ, the checksum of the
  output's bytes is 56350, and the trailer still reads 10535.
\<close>

theorem checksum_stale_counterexample:
  "calculate_crc16 (take (length header_only - 2) header_only)
     = unpack_H header_only (length header_only - 2)
   \<and> convert_fit header_only = Inr header_only_converted
   \<and> calculate_crc16 (take (length header_only_converted - 2) header_only_converted) = 56350
   \<and> unpack_H header_only_converted (length header_only_converted - 2) = 10535"
  using convert_header_only
  by (simp add: header_only_def header_only_converted_def unpack_H_def calculate_crc16_def
      crc_step_def crc_table_def Let_def)

text \<open>
  C1, amended. Whenever \<open>convert_fit\<close> returns a buffer and the scan patched a
  manufacturer field, the CRC-16 of the output's bytes \<open>[0, len - 2)\<close> equals the last two
  bytes read as a little-endian u16. When no manufacturer field was patched, the output
  is the scanned buffer as it is: the checksum bytes are not rewritten.
\<close>

theorem checksum_matches_when_patched:
  assumes "convert_fit x = Inr y" and "scan_of x = Inr t"
  shows "(manufacturer_changed t \<longrightarrow>
            calculate_crc16 (take (length y - 2) y) = unpack_H y (length y - 2))
       \<and> (\<not> manufacturer_changed t \<longrightarrow> y = data t)"
proof -
  from convert_fit_Inr [OF assms(1)] assms(2) have v: "valid_header x"
    and f: "finish (unpack_I x 4) t = Inr y"
    by auto
  from v have len: "14 \<le> length x" by (simp add: valid_header_def)
  note k = scan_of_keeps [OF v assms(2)]
  from k(1) len have lt: "14 \<le> length (data t)" by simp
  note r = finish_result [OF f lt]
  have "calculate_crc16 (take (length y - 2) y) = unpack_H y (length y - 2)"
    if mc: "manufacturer_changed t"
  proof -
    from scan_of_patched_length [OF v assms(2) mc] k(1) r(1) have "16 \<le> length y"
      by (simp split: if_splits)
    with r(5) mc show ?thesis by simp
  qed
  moreover have "y = data t" if "\<not> manufacturer_changed t"
    using that f by (simp add: finish_unchanged)
  ultimately show ?thesis by blast
qed


definition file_id_only_scanned :: scan_state where
  "file_id_only_scanned =
     \<lparr>data = [12, 16, 86, 8, 21, 0, 0, 0, 46, 70, 73, 84,
              64, 0, 0, 0, 0, 3, 0, 1, 0, 1, 2, 132, 2, 2, 132,
              0, 4, 1, 0, 50, 12,
              0, 0],
      pos = 33,
      local_definitions =
        [0 \<mapsto> \<lparr>global_msg_num = 0, msg_fields = [(0, 1, 0), (1, 2, 132), (2, 2, 132)]\<rparr>],
      manufacturer_changed = True,
      file_creator_found = False\<rparr>"

lemmas scan_simps =
  scan_of_def end_pos_of_def start_state_def normalize_header_def initial_state_def
  scan_loop.simps scan_record_def definition_record_def data_record_def
  message_size_def pack_into_H_def pack_H_def splice_def unpack_H_def unpack_I_def Let_def
  read_fields_unfold list_update_unfold

lemma scan_of_file_id_only: "scan_of file_id_only = Inr file_id_only_scanned"
  by (simp add: file_id_only_def file_id_only_scanned_def scan_simps del: read_fields.simps)

theorem checksum_matches_when_patched_witness:
  "convert_fit file_id_only = Inr file_id_only_converted
   \<and> scan_of file_id_only = Inr file_id_only_scanned
   \<and> manufacturer_changed file_id_only_scanned
   \<and> calculate_crc16 (take (length file_id_only_converted - 2) file_id_only_converted)
       = unpack_H file_id_only_converted (length file_id_only_converted - 2)"
proof -
  have mc: "manufacturer_changed file_id_only_scanned"
    by (simp add: file_id_only_scanned_def)
  from checksum_matches_when_patched [OF convert_file_id_only scan_of_file_id_only] mc
  show ?thesis
    using convert_file_id_only scan_of_file_id_only by simp
qed

lemma definition_record_unfold:
  "definition_record h p s =
     (if length (data s) \<le> p + 4 then Break (s\<lparr>pos := p\<rparr>)
      else case read_fields (unat (data s ! (p + 4))) (data s) (p + 5) [] of
             (fs, q) \<Rightarrow>
               Continue (s\<lparr>pos := q,
                 local_definitions := (local_definitions s)
                   (unat (h AND 0x0F) \<mapsto>
                      \<lparr>global_msg_num = unpack_H (data s) (p + 2), msg_fields = fs\<rparr>),
                 file_creator_found :=
                   (file_creator_found s \<or> unpack_H (data s) (p + 2) = 49)\<rparr>))"
  by (auto simp: definition_record_def Let_def add.commute split: prod.splits)

subsection \<open>What the two flags record\<close>

text \<open>
  \<open>file_creator_found\<close> is set exactly when the scan stores a definition whose global
  message number is 49; \<open>manufacturer_changed\<close> exactly when a field loop reaches a
  manufacturer field, (1, size 2) of file_id or (2, size 2) of device_info, that fits
  the buffer.
\<close>

definition manufacturer_field :: "nat \<Rightarrow> field_def \<Rightarrow> bool" where
  "manufacturer_field g f =
     ((g = 0 \<and> fst f = 1 \<or> g \<noteq> 0 \<and> fst f = 2) \<and> fst (snd f) = 2)"

lemma patch_fields_manufacturer_iff:
  "manufacturer_changed (patch_fields g fs p off s) \<longleftrightarrow>
     manufacturer_changed s
     \<or> (\<exists>k < length fs. manufacturer_field g (fs ! k)
           \<and> p + off + field_offset fs k + 2 \<le> length (data s))"
proof (induction fs arbitrary: off s)
  case Nil
  show ?case by simp
next
  case (Cons f fs)
  let ?sz = "fst (snd f)"
  let ?R = "\<lambda>fs off s. \<exists>k < length fs. manufacturer_field g (fs ! k)
           \<and> p + off + field_offset fs k + 2 \<le> length (data s)"
  show ?case
  proof (cases "p + off + ?sz > length (data s)")
    case True
    have "\<not> ?R (f # fs) off s"
    proof
      assume "?R (f # fs) off s"
      then obtain k where k: "k < length (f # fs)" "manufacturer_field g ((f # fs) ! k)"
        "p + off + field_offset (f # fs) k + 2 \<le> length (data s)" by blast
      show False
      proof (cases k)
        case 0
        with k True show False by (simp add: manufacturer_field_def)
      next
        case (Suc k')
        with k True show False by simp
      qed
    qed
    with True show ?thesis by auto
  next
    case False
    then have fit: "p + off + ?sz \<le> length (data s)" by simp
    let ?s1 = "field_write g f (p + off) s"
    have l1: "length (data ?s1) = length (data s)"
      by (rule field_write_keeps [OF fit])
    have w: "manufacturer_changed ?s1 \<longleftrightarrow> manufacturer_changed s \<or> manufacturer_field g f"
      by (auto simp: field_write_manufacturer manufacturer_field_def)
    have "?R (f # fs) off s \<longleftrightarrow> manufacturer_field g f \<or> ?R fs (off + ?sz) ?s1"
    proof
      assume "?R (f # fs) off s"
      then obtain k where k: "k < length (f # fs)" "manufacturer_field g ((f # fs) ! k)"
        "p + off + field_offset (f # fs) k + 2 \<le> length (data s)" by blast
      show "manufacturer_field g f \<or> ?R fs (off + ?sz) ?s1"
      proof (cases k)
        case 0
        with k show ?thesis by simp
      next
        case (Suc k')
        with k l1 have "k' < length fs \<and> manufacturer_field g (fs ! k')
           \<and> p + (off + ?sz) + field_offset fs k' + 2 \<le> length (data ?s1)"
          by (simp add: add.assoc)
        then show ?thesis by blast
      qed
    next
      assume "manufacturer_field g f \<or> ?R fs (off + ?sz) ?s1"
      then show "?R (f # fs) off s"
      proof
        assume m: "manufacturer_field g f"
        with fit have "0 < length (f # fs) \<and> manufacturer_field g ((f # fs) ! 0)
           \<and> p + off + field_offset (f # fs) 0 + 2 \<le> length (data s)"
          by (simp add: manufacturer_field_def)
        then show ?thesis by blast
      next
        assume "?R fs (off + ?sz) ?s1"
        then obtain k' where "k' < length fs" "manufacturer_field g (fs ! k')"
          "p + (off + ?sz) + field_offset fs k' + 2 \<le> length (data ?s1)" by blast
        with l1 have "Suc k' < length (f # fs) \<and> manufacturer_field g ((f # fs) ! Suc k')
           \<and> p + off + field_offset (f # fs) (Suc k') + 2 \<le> length (data s)"
          by (simp add: add.assoc)
        then show ?thesis by blast
      qed
    qed
    with Cons [of "off + ?sz" ?s1] w False show ?thesis by auto
  qed
qed

text \<open>The two events, at the record in front of which the scan stands.\<close>

definition stores_file_creator :: "scan_state \<Rightarrow> bool" where
  "stores_file_creator s =
     (definition_header (data s ! pos s) \<and> pos s + 5 < length (data s)
      \<and> unpack_H (data s) (pos s + 3) = 49)"

definition patches_manufacturer :: "scan_state \<Rightarrow> bool" where
  "patches_manufacturer s =
     (\<not> definition_header (data s ! pos s)
      \<and> (case bound_definition s of
           None \<Rightarrow> False
         | Some df \<Rightarrow>
             (global_msg_num df = 0 \<or> global_msg_num df = 23)
             \<and> (\<exists>k < length (msg_fields df).
                   manufacturer_field (global_msg_num df) (msg_fields df ! k)
                   \<and> pos s + 1 + field_offset (msg_fields df) k + 2 \<le> length (data s))))"

lemma scan_record_flags:
  assumes "scan_record s = Continue s1"
  shows "file_creator_found s1 \<longleftrightarrow> file_creator_found s \<or> stores_file_creator s"
    and "manufacturer_changed s1 \<longleftrightarrow> manufacturer_changed s \<or> patches_manufacturer s"
proof -
  from assms have lt: "pos s < length (data s)"
    by (auto simp: scan_record_def split: if_splits)
  have "(file_creator_found s1 \<longleftrightarrow> file_creator_found s \<or> stores_file_creator s)
      \<and> (manufacturer_changed s1 \<longleftrightarrow> manufacturer_changed s \<or> patches_manufacturer s)"
  proof (cases "definition_header (data s ! pos s)")
    case True
    with assms lt have dr: "definition_record (data s ! pos s) (pos s + 1) s = Continue s1"
      by (simp add: scan_record_definition)
    then have room: "pos s + 5 < length (data s)"
      by (auto simp: definition_record_unfold split: if_splits)
    have e: "pos s + 1 + 2 = pos s + 3" by simp
    from dr room
    have "file_creator_found s1 \<longleftrightarrow> file_creator_found s \<or> unpack_H (data s) (pos s + 3) = 49"
      unfolding definition_record_unfold e
      by (auto split: if_splits prod.splits)
    moreover from definition_record_data dr
    have "manufacturer_changed s1 = manufacturer_changed s" by blast
    ultimately show ?thesis
      using True room by (simp add: stores_file_creator_def patches_manufacturer_def)
  next
    case False
    note sr = scan_record_data [OF lt False]
    from assms sr obtain df where df: "bound_definition s = Some df"
      by (cases "bound_definition s") auto
    let ?g = "global_msg_num df" and ?fs = "msg_fields df"
    have nf: "\<not> stores_file_creator s" using False by (simp add: stores_file_creator_def)
    show ?thesis
    proof (cases "?g = 0 \<or> ?g = 23")
      case True
      with assms sr df
      have s1: "s1 = (patch_fields ?g ?fs (pos s + 1) 0 s)\<lparr>pos := pos s + 1 + message_size ?fs\<rparr>"
        by (auto split: if_splits)
      have "manufacturer_changed s1 \<longleftrightarrow> manufacturer_changed s \<or> patches_manufacturer s"
        using patch_fields_manufacturer_iff [of ?g ?fs "pos s + 1" 0 s] True False df
        by (simp add: s1 patches_manufacturer_def)
      moreover have "file_creator_found s1 = file_creator_found s"
        by (simp add: s1 patch_fields_keeps)
      ultimately show ?thesis using nf by simp
    next
      case g: False
      with assms sr df have "s1 = s\<lparr>pos := pos s + 1 + message_size ?fs\<rparr>" by auto
      with g df nf False show ?thesis by (simp add: patches_manufacturer_def)
    qed
  qed
  then show "file_creator_found s1 \<longleftrightarrow> file_creator_found s \<or> stores_file_creator s"
    and "manufacturer_changed s1 \<longleftrightarrow> manufacturer_changed s \<or> patches_manufacturer s"
    by blast+
qed

lemma scan_loop_flags:
  "scan_loop end_pos s = Inr t \<Longrightarrow>
     (file_creator_found t \<longleftrightarrow>
        file_creator_found s
        \<or> (\<exists>n s' s''. scan_steps n end_pos s = Some s' \<and> pos s' < end_pos
              \<and> scan_record s' = Continue s'' \<and> stores_file_creator s'))
     \<and> (manufacturer_changed t \<longleftrightarrow>
        manufacturer_changed s
        \<or> (\<exists>n s' s''. scan_steps n end_pos s = Some s' \<and> pos s' < end_pos
              \<and> scan_record s' = Continue s'' \<and> patches_manufacturer s'))"
proof (induction end_pos s rule: scan_loop.induct)
  case (1 end_pos s)
  let ?E = "\<lambda>P s. \<exists>n s' s''. scan_steps n end_pos s = Some s' \<and> pos s' < end_pos
              \<and> scan_record s' = Continue s'' \<and> P s'"
  have none: "\<not> ?E P s" if "\<And>s1. scan_record s \<noteq> Continue s1" for P
  proof
    assume "?E P s"
    then obtain n s' s'' where e: "scan_steps n end_pos s = Some s'"
      "scan_record s' = Continue s''" by blast
    show False
    proof (cases n)
      case 0
      with e that [of s''] show False by simp
    next
      case (Suc m)
      with e that show False by (auto split: if_splits step_result.splits)
    qed
  qed
  show ?case
  proof (cases "pos s < end_pos \<and> pos s < length (data s)")
    case False
    with "1.prems" have t: "t = s" by (simp add: scan_loop_stop)
    have no: "\<not> ?E P s" for P
    proof
      assume "?E P s"
      then obtain n s' s'' where e: "scan_steps n end_pos s = Some s'" "pos s' < end_pos"
        "scan_record s' = Continue s''" by blast
      show False
      proof (cases n)
        case 0
        with e False show False by (auto simp: scan_record_def split: if_splits)
      next
        case (Suc m)
        with e False show False by simp
      qed
    qed
    from no [of stores_file_creator] no [of patches_manufacturer] t show ?thesis by blast
  next
    case True
    show ?thesis
    proof (cases "scan_record s")
      case (Continue s1)
      with True "1.prems" have l1: "scan_loop end_pos s1 = Inr t"
        by (simp add: scan_loop_Continue)
      note ih = "1.IH" [OF True Continue l1]
      note fl = scan_record_flags [OF Continue]
      have split: "?E P s \<longleftrightarrow> P s \<or> ?E P s1" for P
      proof
        assume "?E P s"
        then obtain n s' s'' where e: "scan_steps n end_pos s = Some s'" "pos s' < end_pos"
          "scan_record s' = Continue s''" "P s'" by blast
        show "P s \<or> ?E P s1"
        proof (cases n)
          case 0
          with e show ?thesis by simp
        next
          case (Suc m)
          with e True Continue have "scan_steps m end_pos s1 = Some s'" by simp
          with e show ?thesis by blast
        qed
      next
        assume "P s \<or> ?E P s1"
        then show "?E P s"
        proof
          assume "P s"
          with True Continue have "scan_steps 0 end_pos s = Some s \<and> pos s < end_pos
              \<and> scan_record s = Continue s1 \<and> P s" by simp
          then show ?thesis by blast
        next
          assume "?E P s1"
          then obtain n s' s'' where e: "scan_steps n end_pos s1 = Some s'" "pos s' < end_pos"
            "scan_record s' = Continue s''" "P s'" by blast
          with True Continue have "scan_steps (Suc n) end_pos s = Some s'" by simp
          with e show ?thesis by blast
        qed
      qed
      from ih fl split [of stores_file_creator] split [of patches_manufacturer]
      show ?thesis by blast
    next
      case (Break s1)
      with True "1.prems" have t: "t = s1" by (simp add: scan_loop_Break)
      from Break have nc: "\<And>s1. scan_record s \<noteq> Continue s1" by simp
      from none [OF nc, of stores_file_creator] none [OF nc, of patches_manufacturer]
        t scan_record_Break [OF Break]
      show ?thesis by blast
    next
      case (Raise e)
      with True "1.prems" show ?thesis by (simp add: scan_loop_Raise)
    qed
  qed
qed

text \<open>\<open>scan_passes x P\<close>: the scan of \<open>x\<close> passes a record, in a state \<open>s\<close> with \<open>P s\<close>.\<close>

definition scan_passes :: "bytes \<Rightarrow> (scan_state \<Rightarrow> bool) \<Rightarrow> bool" where
  "scan_passes x P =
     (\<exists>n s s'. scan_steps n (end_pos_of x) (start_state x) = Some s
         \<and> pos s < end_pos_of x \<and> scan_record s = Continue s' \<and> P s)"

lemma scan_of_flags:
  assumes "valid_header x" "scan_of x = Inr t"
  shows "manufacturer_changed t \<longleftrightarrow> scan_passes x patches_manufacturer"
    and "file_creator_found t \<longleftrightarrow> scan_passes x stores_file_creator"
proof -
  from assms(1) have "4 \<le> length x" by (simp add: valid_header_def)
  note st = start_state_facts [OF this]
  from scan_loop_flags [OF assms(2) [unfolded scan_of_def]] st(8,9)
  show "manufacturer_changed t \<longleftrightarrow> scan_passes x patches_manufacturer"
    and "file_creator_found t \<longleftrightarrow> scan_passes x stores_file_creator"
    by (simp_all add: scan_passes_def)
qed


text \<open>
  C5. Whenever \<open>convert_fit\<close> returns a buffer: the scan ends with
  \<open>manufacturer_changed\<close> set exactly if it passed a data record in which it patched a
  manufacturer field, and with \<open>file_creator_found\<close> set exactly if it passed a
  definition of global message 49. If the first holds and the second does not, the output
  is 16 bytes longer than the input, the 16 bytes before its last two are the fixed
  file_creator block (definition record of local type 7 for global message 49 with fields
  (0, 2, 0x84) and (1, 1, 0x02), then the data record 7 with 975 and 255), the payload
  size at offset 4 has grown by 16, and every other byte before the block is the scanned
  buffer's. Otherwise the output has the input's length and payload size, and no byte
  before the trailer is moved.
\<close>

theorem file_creator_spliced_iff:
  assumes "convert_fit x = Inr y" and "scan_of x = Inr t"
  shows "create_file_creator_message =
           [0x47, 0, 0, 0x31, 0, 2, 0, 2, 0x84, 1, 1, 0x02, 7, 0xCF, 0x03, 0xFF]
       \<and> (manufacturer_changed t \<longleftrightarrow> scan_passes x patches_manufacturer)
       \<and> (file_creator_found t \<longleftrightarrow> scan_passes x stores_file_creator)
       \<and> (if manufacturer_changed t \<and> \<not> file_creator_found t
           then length y = length x + 16
              \<and> take 16 (drop (length x - 2) y) = create_file_creator_message
              \<and> unpack_I y 4 = unpack_I x 4 + 16
              \<and> (\<forall>i < length x - 2. i < 4 \<or> 8 \<le> i \<longrightarrow> y ! i = data t ! i)
           else length y = length x
              \<and> unpack_I y 4 = unpack_I x 4
              \<and> (\<forall>i < length x - 2. y ! i = data t ! i))"
proof -
  from convert_fit_Inr [OF assms(1)] assms(2) have v: "valid_header x"
    and f: "finish (unpack_I x 4) t = Inr y"
    by auto
  from v have len: "14 \<le> length x" by (simp add: valid_header_def)
  then have l4: "4 \<le> length x" by simp
  note st = start_state_facts [OF l4]
  note k = scan_of_keeps [OF v assms(2)]
  from k(1) len have lt: "14 \<le> length (data t)" by simp
  note r = finish_result [OF f lt]
  have block: "create_file_creator_message =
      [0x47, 0, 0, 0x31, 0, 2, 0, 2, 0x84, 1, 1, 0x02, 7, 0xCF, 0x03, 0xFF]"
    by (simp add: create_file_creator_message_def pack_H_def)
  note fl = scan_of_flags [OF v assms(2)]
  show ?thesis
  proof (cases "manufacturer_changed t \<and> \<not> file_creator_found t")
    case True
    with r(1,2,3) k(1) block fl show ?thesis by simp
  next
    case False
    with r(4) k(1) have same: "\<forall>i < length x - 2. y ! i = data t ! i" by simp
    have "y ! i = x ! i" if "4 \<le> i" "i < 8" for i
    proof -
      from that len have "i < length x - 2" "i \<le> 12" by arith+
      with same k(2) st(5) that show ?thesis by simp
    qed
    from this [of 4] this [of 5] this [of 6] this [of 7]
    have "unpack_I y 4 = unpack_I x 4"
      by (simp add: unpack_I_def)
    with False r(1) k(1) same block fl show ?thesis by simp
  qed
qed

theorem file_creator_spliced_iff_witness:
  "convert_fit file_id_only = Inr file_id_only_converted
   \<and> scan_of file_id_only = Inr file_id_only_scanned
   \<and> manufacturer_changed file_id_only_scanned \<and> \<not> file_creator_found file_id_only_scanned
   \<and> length file_id_only_converted = length file_id_only + 16
   \<and> take 16 (drop (length file_id_only - 2) file_id_only_converted)
       = create_file_creator_message
   \<and> unpack_I file_id_only_converted 4 = unpack_I file_id_only 4 + 16"
proof -
  have fl: "manufacturer_changed file_id_only_scanned \<and> \<not> file_creator_found file_id_only_scanned"
    by (simp add: file_id_only_scanned_def)
  from file_creator_spliced_iff [OF convert_file_id_only scan_of_file_id_only] fl
  show ?thesis
    using convert_file_id_only scan_of_file_id_only by simp
qed

lemma read_fields_truncated:
  "length d < p + 3 * n \<Longrightarrow> length d < snd (read_fields n d p acc) + 3"
proof (induction n arbitrary: p acc)
  case 0
  then show ?case by simp
next
  case (Suc n)
  show ?case
  proof (cases "p + 3 > length d")
    case True
    then show ?thesis by simp
  next
    case False
    from Suc.prems have "length d < p + 3 + 3 * n" by simp
    from Suc.IH [OF this] False show ?thesis by simp
  qed
qed

text \<open>
  C3. When the record at \<open>pos\<close> is a definition whose five fixed bytes, or whose declared
  field_count triples, do not fit the bytes left in the buffer, the scan ends with this
  record: the loop returns the state that this one pass of its body produced, with the
  buffer untouched. (The source has no reason value: it logs a warning and leaves the
  loop, by \<open>break\<close> or because \<open>pos\<close> has reached \<open>end_pos\<close>.)
\<close>

theorem truncated_definition_halts:
  assumes "pos s < end_pos" and "end_pos \<le> length (data s) - 2"
    and "definition_header (data s ! pos s)"
    and "length (data s) \<le> pos s + 5
         \<or> length (data s) < pos s + 6 + 3 * unat (data s ! (pos s + 5))"
  shows "\<exists>s'. (scan_record s = Continue s' \<or> scan_record s = Break s')
           \<and> scan_loop end_pos s = Inr s'
           \<and> data s' = data s
           \<and> manufacturer_changed s' = manufacturer_changed s"
proof -
  from assms(1,2) have lt: "pos s < length (data s)" by arith
  note sr = scan_record_definition [OF lt assms(3)]
  show ?thesis
  proof (cases "length (data s) \<le> pos s + 5")
    case True
    then have b: "scan_record s = Break (s\<lparr>pos := pos s + 1\<rparr>)"
      by (simp add: sr definition_record_def)
    from scan_loop_Break [OF assms(1) lt b] b show ?thesis by simp
  next
    case False
    with assms(4) have tr: "length (data s) < pos s + 6 + 3 * unat (data s ! (pos s + 5))"
      by simp
    let ?n = "unat (data s ! (pos s + 5))"
    obtain fs q where rf: "read_fields ?n (data s) (pos s + 6) [] = (fs, q)"
      by (cases "read_fields ?n (data s) (pos s + 6) []") auto
    from read_fields_truncated [OF tr, of "[]"] rf have q: "length (data s) < q + 3" by simp
    define s' where "s' = s\<lparr>pos := q,
        local_definitions := (local_definitions s)
          (unat (data s ! pos s AND 0x0F) \<mapsto>
             \<lparr>global_msg_num = unpack_H (data s) (pos s + 3), msg_fields = fs\<rparr>),
        file_creator_found :=
          (if unpack_H (data s) (pos s + 3) = 0 then file_creator_found s
           else if unpack_H (data s) (pos s + 3) = 23 then file_creator_found s
           else if unpack_H (data s) (pos s + 3) = 49 then True
           else file_creator_found s)\<rparr>"
    have c: "scan_record s = Continue s'"
      using False rf
      by (simp add: sr definition_record_def Let_def s'_def add.commute numeral_3_eq_3)
    have "\<not> q < end_pos" using q assms(2) by arith
    then have "\<not> (pos s' < end_pos \<and> pos s' < length (data s'))"
      by (simp add: s'_def)
    then have "scan_loop end_pos s' = Inr s'" by (rule scan_loop_stop)
    with scan_loop_Continue [OF assms(1) lt c] have "scan_loop end_pos s = Inr s'" by simp
    with c show ?thesis by (auto simp: s'_def)
  qed
qed

text \<open>
  A file whose only record is a definition announcing five fields, of which one is
  there.
\<close>

definition truncated_definition :: bytes where
  "truncated_definition =
     [12, 16, 86, 8, 9, 0, 0, 0, 0x2E, 0x46, 0x49, 0x54,
      0x40, 0, 0, 0, 0, 5, 1, 2, 0x84,
      0, 0]"

theorem truncated_definition_halts_witness:
  "pos (start_state truncated_definition) < end_pos_of truncated_definition
   \<and> end_pos_of truncated_definition \<le> length (data (start_state truncated_definition)) - 2
   \<and> definition_header
        (data (start_state truncated_definition) ! pos (start_state truncated_definition))
   \<and> length (data (start_state truncated_definition))
        < pos (start_state truncated_definition) + 6
          + 3 * unat (data (start_state truncated_definition)
                        ! (pos (start_state truncated_definition) + 5))
   \<and> (\<exists>s'. (scan_record (start_state truncated_definition) = Continue s'
             \<or> scan_record (start_state truncated_definition) = Break s')
           \<and> scan_of truncated_definition = Inr s'
           \<and> data s' = data (start_state truncated_definition)
           \<and> manufacturer_changed s' = manufacturer_changed (start_state truncated_definition))"
proof -
  let ?s = "start_state truncated_definition"
  have st: "?s = initial_state truncated_definition 12"
    by (simp add: start_state_def normalize_header_def truncated_definition_def unpack_H_def
        Let_def)
  have a: "pos ?s < end_pos_of truncated_definition"
    and b: "end_pos_of truncated_definition \<le> length (data ?s) - 2"
    and c: "definition_header (data ?s ! pos ?s)"
    and d: "length (data ?s) < pos ?s + 6 + 3 * unat (data ?s ! (pos ?s + 5))"
    unfolding st
    by (simp_all add: initial_state_def end_pos_of_def truncated_definition_def unpack_I_def
        definition_header_def)
  from d have d': "length (data ?s) \<le> pos ?s + 5
      \<or> length (data ?s) < pos ?s + 6 + 3 * unat (data ?s ! (pos ?s + 5))" by simp
  from truncated_definition_halts [OF a b c d'] a b c d show ?thesis
    by (simp add: scan_of_def)
qed

lemma end_pos_of_le: "end_pos_of x \<le> length x - 2"
  by (simp add: end_pos_of_def)

lemma reached_facts:
  assumes "valid_header x" and "scan_steps n (end_pos_of x) (start_state x) = Some s"
  shows "length (data s) = length x" and "12 \<le> pos s" and "scan_of x = scan_loop (end_pos_of x) s"
    and "\<forall>i. pos s \<le> i \<longrightarrow> data s ! i = x ! i"
proof -
  from assms(1) have l4: "4 \<le> length x" and h: "12 \<le> unat (x ! 0)"
    by (simp_all add: valid_header_def)
  note st = start_state_facts [OF l4]
  note k = scan_steps_keeps [OF assms(2)]
  from k st(2) show "length (data s) = length x" by simp
  from k st(6) h show p: "12 \<le> pos s" by simp
  from scan_steps_loop [OF assms(2)] show "scan_of x = scan_loop (end_pos_of x) s"
    by (simp add: scan_of_def)
  show "\<forall>i. pos s \<le> i \<longrightarrow> data s ! i = x ! i"
  proof (intro allI impI)
    fix i assume "pos s \<le> i"
    with k p st(5) show "data s ! i = x ! i" by simp
  qed
qed

text \<open>
  C7. As stated the claim fails on a header that announces a payload of \<open>2^32 - 1\<close> bytes:
  the scan of \<open>oversized_payload\<close> patches a manufacturer field, then stops without
  raising at the unbound local type 5, but the new payload size does not fit
  \<open>struct.pack_into('<I', ...)\<close> and \<open>convert_fit\<close> raises.
\<close>

definition oversized_payload :: bytes where
  "oversized_payload =
     [12, 16, 86, 8, 255, 255, 255, 255, 0x2E, 0x46, 0x49, 0x54,
      0x40, 0, 0, 0, 0, 1, 1, 2, 0x84,
      0x00, 32, 0,
      0x05,
      0, 0]"

definition oversized_payload_reached :: scan_state where
  "oversized_payload_reached =
     \<lparr>data = [12, 16, 86, 8, 255, 255, 255, 255, 0x2E, 0x46, 0x49, 0x54,
              0x40, 0, 0, 0, 0, 1, 1, 2, 0x84,
              0x00, 1, 0,
              0x05,
              0, 0],
      pos = 24,
      local_definitions = [0 \<mapsto> \<lparr>global_msg_num = 0, msg_fields = [(1, 2, 132)]\<rparr>],
      manufacturer_changed = True,
      file_creator_found = False\<rparr>"

theorem unknown_local_type_counterexample:
  "valid_header oversized_payload
   \<and> scan_steps 2 (end_pos_of oversized_payload) (start_state oversized_payload)
       = Some oversized_payload_reached
   \<and> pos oversized_payload_reached < end_pos_of oversized_payload
   \<and> \<not> definition_header (data oversized_payload_reached ! pos oversized_payload_reached)
   \<and> bound_definition oversized_payload_reached = None
   \<and> scan_of oversized_payload = Inr (oversized_payload_reached\<lparr>pos := 25\<rparr>)
   \<and> convert_fit oversized_payload = Inl (Failed_to_convert StructError)"
  by (simp add: oversized_payload_def oversized_payload_reached_def valid_header_def
      definition_header_def bound_definition_def scan_steps_unfold scan_simps run_simps
      del: read_fields.simps scan_steps.simps)

text \<open>
  C7, amended. On an input that passes header validation, when the scan comes to a data
  record whose local message type has no stored definition, the loop stops there
  without raising, having moved only past the header byte. If moreover the payload size
  plus 16 fits in 32 bits whenever a file_creator block is due (a manufacturer field
  patched, no file_creator definition seen), \<open>convert_fit\<close> returns a buffer, and that
  buffer holds the scanned bytes up to the trailer, the payload size at offset 4-7 apart.
\<close>

theorem unknown_local_type_halts:
  assumes "valid_header x"
    and "scan_steps n (end_pos_of x) (start_state x) = Some s"
    and "pos s < end_pos_of x"
    and "\<not> definition_header (data s ! pos s)"
    and "bound_definition s = None"
    and "manufacturer_changed s \<and> \<not> file_creator_found s \<longrightarrow> unpack_I x 4 + 16 < 4294967296"
  shows "scan_record s = Break (s\<lparr>pos := pos s + 1\<rparr>)
       \<and> scan_of x = Inr (s\<lparr>pos := pos s + 1\<rparr>)
       \<and> (\<exists>y. convert_fit x = Inr y
              \<and> (\<forall>i < length x - 2. i < 4 \<or> 8 \<le> i \<longrightarrow> y ! i = data s ! i))"
proof -
  note r = reached_facts [OF assms(1,2)]
  from assms(1) have len: "14 \<le> length x" by (simp add: valid_header_def)
  from assms(3) end_pos_of_le [of x] r(1) have lt: "pos s < length (data s)" by arith
  let ?t = "s\<lparr>pos := pos s + 1\<rparr>"
  have b: "scan_record s = Break ?t"
    using scan_record_data [OF lt assms(4)] assms(5) by simp
  from scan_loop_Break [OF assms(3) lt b] r(3) have t: "scan_of x = Inr ?t" by simp
  have "14 \<le> length (data ?t)" using len r(1) by simp
  moreover have "manufacturer_changed ?t \<and> \<not> file_creator_found ?t \<longrightarrow>
      unpack_I x 4 + 16 < 4294967296"
    using assms(6) by simp
  ultimately obtain y where y: "finish (unpack_I x 4) ?t = Inr y"
    using finish_ok by blast
  have c: "convert_fit x = Inr y"
    using t y by (simp add: convert_fit_valid [OF assms(1)])
  from finish_result(2) [OF y] len r(1)
  have "\<forall>i < length x - 2. i < 4 \<or> 8 \<le> i \<longrightarrow> y ! i = data s ! i" by simp
  with b t c show ?thesis by blast
qed

text \<open>The same file with the payload size it has: 13 bytes.\<close>

definition unknown_local_type :: bytes where
  "unknown_local_type =
     [12, 16, 86, 8, 13, 0, 0, 0, 0x2E, 0x46, 0x49, 0x54,
      0x40, 0, 0, 0, 0, 1, 1, 2, 0x84,
      0x00, 32, 0,
      0x05,
      0, 0]"

definition unknown_local_type_reached :: scan_state where
  "unknown_local_type_reached =
     \<lparr>data = [12, 16, 86, 8, 13, 0, 0, 0, 0x2E, 0x46, 0x49, 0x54,
              0x40, 0, 0, 0, 0, 1, 1, 2, 0x84,
              0x00, 1, 0,
              0x05,
              0, 0],
      pos = 24,
      local_definitions = [0 \<mapsto> \<lparr>global_msg_num = 0, msg_fields = [(1, 2, 132)]\<rparr>],
      manufacturer_changed = True,
      file_creator_found = False\<rparr>"

theorem unknown_local_type_halts_witness:
  "valid_header unknown_local_type
   \<and> scan_steps 2 (end_pos_of unknown_local_type) (start_state unknown_local_type)
       = Some unknown_local_type_reached
   \<and> pos unknown_local_type_reached < end_pos_of unknown_local_type
   \<and> \<not> definition_header (data unknown_local_type_reached ! pos unknown_local_type_reached)
   \<and> bound_definition unknown_local_type_reached = None
   \<and> unpack_I unknown_local_type 4 + 16 < 4294967296
   \<and> scan_of unknown_local_type = Inr (unknown_local_type_reached\<lparr>pos := 25\<rparr>)
   \<and> (\<exists>y. convert_fit unknown_local_type = Inr y)"
proof -
  let ?x = unknown_local_type and ?s = unknown_local_type_reached
  have v: "valid_header ?x"
    by (simp add: unknown_local_type_def valid_header_def fit_signature_def)
  have st: "scan_steps 2 (end_pos_of ?x) (start_state ?x) = Some ?s"
    by (simp add: unknown_local_type_def unknown_local_type_reached_def scan_steps_unfold
        scan_simps del: read_fields.simps scan_steps.simps)
  have p: "pos ?s < end_pos_of ?x"
    by (simp add: unknown_local_type_def unknown_local_type_reached_def end_pos_of_def
        unpack_I_def)
  have h: "\<not> definition_header (data ?s ! pos ?s)"
    by (simp add: unknown_local_type_reached_def definition_header_def)
  have b: "bound_definition ?s = None"
    by (simp add: unknown_local_type_reached_def bound_definition_def)
  have sz: "unpack_I ?x 4 + 16 < 4294967296"
    by (simp add: unknown_local_type_def unpack_I_def)
  then have sz': "manufacturer_changed ?s \<and> \<not> file_creator_found ?s \<longrightarrow>
      unpack_I ?x 4 + 16 < 4294967296" by simp
  have "pos ?s + 1 = 25" by (simp add: unknown_local_type_reached_def)
  with unknown_local_type_halts [OF v st p h b sz'] v st p h b sz show ?thesis
    by auto
qed







text \<open>\<open>file_id_only\<close> after its definition record: in front of the file_id data record.\<close>

definition file_id_only_defined :: scan_state where
  "file_id_only_defined =
     \<lparr>data = [12, 16, 86, 8, 21, 0, 0, 0, 46, 70, 73, 84,
              64, 0, 0, 0, 0, 3, 0, 1, 0, 1, 2, 132, 2, 2, 132,
              0, 0, 32, 0, 0, 0,
              0, 0],
      pos = 27,
      local_definitions =
        [0 \<mapsto> \<lparr>global_msg_num = 0, msg_fields = [(0, 1, 0), (1, 2, 132), (2, 2, 132)]\<rparr>],
      manufacturer_changed = False,
      file_creator_found = False\<rparr>"

definition file_id_definition :: message_def where
  "file_id_definition = \<lparr>global_msg_num = 0, msg_fields = [(0, 1, 0), (1, 2, 132), (2, 2, 132)]\<rparr>"

lemma reach_file_id_only:
  "scan_steps 1 (end_pos_of file_id_only) (start_state file_id_only) = Some file_id_only_defined"
  "pos file_id_only_defined < end_pos_of file_id_only"
  "\<not> definition_header (data file_id_only_defined ! pos file_id_only_defined)"
  "bound_definition file_id_only_defined = Some file_id_definition"
  by (simp_all add: file_id_only_def file_id_only_defined_def file_id_definition_def
      definition_header_def bound_definition_def scan_steps_unfold scan_simps
      del: read_fields.simps scan_steps.simps)


subsection \<open>Frame\<close>

text \<open>
  \<open>data_record_at x n s df\<close>: after \<open>n\<close> records the scan of \<open>x\<close> stands, in state \<open>s\<close>,
  in front of a data record whose local type is bound to \<open>df\<close>. \<open>in_field fs base k i\<close>:
  byte \<open>i\<close> belongs to field \<open>k\<close> of a record whose fields start at \<open>base\<close>.
\<close>

definition data_record_at :: "bytes \<Rightarrow> nat \<Rightarrow> scan_state \<Rightarrow> message_def \<Rightarrow> bool" where
  "data_record_at x n s df =
     (scan_steps n (end_pos_of x) (start_state x) = Some s
      \<and> pos s < end_pos_of x
      \<and> \<not> definition_header (data s ! pos s)
      \<and> bound_definition s = Some df)"

definition in_field :: "field_def list \<Rightarrow> nat \<Rightarrow> nat \<Rightarrow> nat \<Rightarrow> bool" where
  "in_field fs base k i =
     (base + field_offset fs k \<le> i \<and> i < base + field_offset fs k + fst (snd (fs ! k)))"

lemma field_offset_mono:
  assumes "k < k'" "k' \<le> length fs"
  shows "field_offset fs k + fst (snd (fs ! k)) \<le> field_offset fs k'"
proof -
  from assms have "k < length (take k' fs)" by simp
  from field_offset_le [OF this] assms show ?thesis
    by (simp add: field_offset_def min_def)
qed

lemma in_field_unique:
  assumes "k < length fs" "k' < length fs" "in_field fs base k i" "in_field fs base k' i"
  shows "k = k'"
proof (rule ccontr)
  assume "k \<noteq> k'"
  then consider "k < k'" | "k' < k" by arith
  then show False
  proof cases
    case 1
    from field_offset_mono [OF 1, of fs] assms(2,3,4) show False
      by (simp add: in_field_def)
  next
    case 2
    from field_offset_mono [OF 2, of fs] assms(1,3,4) show False
      by (simp add: in_field_def)
  qed
qed

text \<open>The pass over a data record the scan stands at, when the conversion succeeds.\<close>

lemma data_record_step:
  assumes "valid_header x" "scan_of x = Inr t" "data_record_at x n s df"
  defines "s1 \<equiv> (if global_msg_num df = 0 \<or> global_msg_num df = 23
                   then patch_fields (global_msg_num df) (msg_fields df) (pos s + 1) 0 s
                   else s)\<lparr>pos := pos s + 1 + message_size (msg_fields df)\<rparr>"
  shows "scan_record s = Continue s1" and "scan_loop (end_pos_of x) s1 = Inr t"
proof -
  from assms(3) have st: "scan_steps n (end_pos_of x) (start_state x) = Some s"
    and p: "pos s < end_pos_of x" and nd: "\<not> definition_header (data s ! pos s)"
    and df: "bound_definition s = Some df"
    by (simp_all add: data_record_at_def)
  note r = reached_facts [OF assms(1) st]
  from p end_pos_of_le [of x] r(1) have lt: "pos s < length (data s)" by arith
  from assms(2) r(3) have loop: "scan_loop (end_pos_of x) s = Inr t" by simp
  show c: "scan_record s = Continue s1"
  proof (cases "global_msg_num df = 0
      \<and> pos s + 1 + min (message_size (msg_fields df)) 16 > length (data s)")
    case True
    then have "scan_record s = Raise IndexError"
      using scan_record_data [OF lt nd] df by simp
    from scan_loop_Raise [OF p lt this] loop show ?thesis by simp
  next
    case False
    then show ?thesis
      using scan_record_data [OF lt nd] df by (auto simp: s1_def)
  qed
  from scan_loop_Continue [OF p lt c] loop show "scan_loop (end_pos_of x) s1 = Inr t"
    by simp
qed

text \<open>
  A byte of a record the scan passed, before the trailer, that this record's pass did
  not write, is the input's byte in the output.
\<close>

lemma passed_byte_unchanged:
  assumes "convert_fit x = Inr y"
    and "scan_steps n (end_pos_of x) (start_state x) = Some s"
    and "scan_record s = Continue s1" and "scan_loop (end_pos_of x) s1 = scan_of x"
    and "pos s \<le> i" "i < pos s1" "i < length x - 2"
    and "data s1 ! i = data s ! i"
  shows "y ! i = x ! i"
proof -
  from convert_fit_Inr [OF assms(1)] obtain t where v: "valid_header x"
    and t: "scan_of x = Inr t" and f: "finish (unpack_I x 4) t = Inr y"
    by blast
  from v have len: "14 \<le> length x" by (simp add: valid_header_def)
  note r = reached_facts [OF v assms(2)]
  from assms(4) t have "scan_loop (end_pos_of x) s1 = Inr t" by simp
  from scan_loop_keeps [OF this] assms(6) have "data t ! i = data s1 ! i" by simp
  moreover from r(4) assms(5) have "data s ! i = x ! i" by simp
  moreover have "y ! i = data t ! i"
  proof -
    have "length (data t) = length x" using scan_of_keeps(1) [OF v t] .
    with finish_result(2) [OF f] len assms(5,7) r(2) show ?thesis by simp
  qed
  ultimately show ?thesis using assms(8) by simp
qed

text \<open>
  C9. Whenever \<open>convert_fit\<close> returns a buffer:
  \<^item> the output has the input's length, or 16 bytes more, and then the 16 bytes from the
    input's trailer position on are the file_creator block;
  \<^item> a byte before the input's trailer that differs from the input is one of the header
    bytes 1-7, or lies in a field (0,1), (1,2) or (2,2) of a file_id data record, or in a
    field (2,2) or (4,2) of a device_info data record, that the scan passed;
  \<^item> every byte before the trailer of a field (4, size 4) of a file_id data record is
    the input's;
  \<^item> so is every byte before the trailer of a data record of any other global message
    number, and of a definition record.
\<close>

theorem only_identity_fields_change:
  assumes "convert_fit x = Inr y"
  shows "(length y = length x
          \<or> length y = length x + 16
            \<and> take 16 (drop (length x - 2) y) = create_file_creator_message)
       \<and> (\<forall>i < length x - 2. y ! i \<noteq> x ! i \<longrightarrow>
            (1 \<le> i \<and> i \<le> 7)
            \<or> (\<exists>n s df k. data_record_at x n s df
                  \<and> (global_msg_num df = 0 \<or> global_msg_num df = 23)
                  \<and> k < length (msg_fields df)
                  \<and> target (global_msg_num df) (msg_fields df ! k)
                  \<and> in_field (msg_fields df) (pos s + 1) k i))
       \<and> (\<forall>n s df k i. data_record_at x n s df \<and> global_msg_num df = 0
              \<and> k < length (msg_fields df)
              \<and> fst (msg_fields df ! k) = 4 \<and> fst (snd (msg_fields df ! k)) = 4
              \<and> in_field (msg_fields df) (pos s + 1) k i \<and> i < length x - 2
            \<longrightarrow> y ! i = x ! i)
       \<and> (\<forall>n s df i. data_record_at x n s df
              \<and> global_msg_num df \<noteq> 0 \<and> global_msg_num df \<noteq> 23
              \<and> pos s \<le> i \<and> i < pos s + 1 + message_size (msg_fields df)
              \<and> i < length x - 2
            \<longrightarrow> y ! i = x ! i)
       \<and> (\<forall>n s s' i. scan_steps n (end_pos_of x) (start_state x) = Some s
              \<and> pos s < end_pos_of x \<and> definition_header (data s ! pos s)
              \<and> scan_record s = Continue s'
              \<and> pos s \<le> i \<and> i < pos s' \<and> i < length x - 2
            \<longrightarrow> y ! i = x ! i)"
proof -
  let ?e = "end_pos_of x"
  from convert_fit_Inr [OF assms] obtain t where v: "valid_header x"
    and t: "scan_of x = Inr t" and f: "finish (unpack_I x 4) t = Inr y"
    by blast
  from v have len: "14 \<le> length x" by (simp add: valid_header_def)
  then have l4: "4 \<le> length x" by simp
  note st = start_state_facts [OF l4]
  note k = scan_of_keeps [OF v t]
  from k(1) len have lt: "14 \<le> length (data t)" by simp
  note r = finish_result [OF f lt]
  have A: "length y = length x
          \<or> length y = length x + 16
            \<and> take 16 (drop (length x - 2) y) = create_file_creator_message"
    using r(1,3) k(1) by (auto split: if_splits)
  have B: "(1 \<le> i \<and> i \<le> 7)
            \<or> (\<exists>n s df k. data_record_at x n s df
                  \<and> (global_msg_num df = 0 \<or> global_msg_num df = 23)
                  \<and> k < length (msg_fields df)
                  \<and> target (global_msg_num df) (msg_fields df ! k)
                  \<and> in_field (msg_fields df) (pos s + 1) k i)"
    if i: "i < length x - 2" and neq: "y ! i \<noteq> x ! i" for i
  proof (cases "i < 8")
    case True
    have "i \<noteq> 0"
    proof
      assume "i = 0"
      with r(2) lt k(2) st(5) have "y ! i = x ! i" by simp
      with neq show False by simp
    qed
    with True show ?thesis by simp
  next
    case False
    with r(2) i k(1) have "y ! i = data t ! i" by simp
    moreover from False st(5) have "data (start_state x) ! i = x ! i" by simp
    ultimately have "data t ! i \<noteq> data (start_state x) ! i" using neq by simp
    from scan_loop_changes [OF t [unfolded scan_of_def] this]
    show ?thesis unfolding data_record_at_def in_field_def by blast
  qed
  have C: "y ! i = x ! i"
    if h: "data_record_at x n s df" "global_msg_num df = 0" "k < length (msg_fields df)"
      "fst (msg_fields df ! k) = 4" "fst (snd (msg_fields df ! k)) = 4"
      "in_field (msg_fields df) (pos s + 1) k i" "i < length x - 2" for n s df k i
  proof -
    let ?fs = "msg_fields df"
    let ?s1 = "(patch_fields 0 ?fs (pos s + 1) 0 s)\<lparr>pos := pos s + 1 + message_size ?fs\<rparr>"
    from data_record_step [OF v t h(1)] h(2)
    have c: "scan_record s = Continue ?s1" and l: "scan_loop ?e ?s1 = scan_of x"
      using t by simp_all
    have same: "data ?s1 ! i = data s ! i"
    proof (rule ccontr)
      assume "data ?s1 ! i \<noteq> data s ! i"
      then have "data (patch_fields 0 ?fs (pos s + 1) 0 s) ! i \<noteq> data s ! i" by simp
      from patch_fields_changes [OF this] obtain k' where k': "k' < length ?fs"
        "target 0 (?fs ! k')" "in_field ?fs (pos s + 1) k' i"
        by (auto simp: in_field_def)
      from in_field_unique [OF h(3) k'(1) h(6) k'(3)] k'(2) h(4,5) show False
        by (simp add: target_def)
    qed
    from h(6) field_offset_le [OF h(3)] have "pos s \<le> i" "i < pos ?s1"
      by (simp_all add: in_field_def)
    moreover from h(1) have "scan_steps n ?e (start_state x) = Some s"
      by (simp add: data_record_at_def)
    ultimately show ?thesis
      using passed_byte_unchanged [OF assms _ c l _ _ h(7) same] by blast
  qed
  have D: "y ! i = x ! i"
    if h: "data_record_at x n s df" "global_msg_num df \<noteq> 0" "global_msg_num df \<noteq> 23"
      "pos s \<le> i" "i < pos s + 1 + message_size (msg_fields df)" "i < length x - 2"
    for n s df i
  proof -
    let ?s1 = "s\<lparr>pos := pos s + 1 + message_size (msg_fields df)\<rparr>"
    from data_record_step [OF v t h(1)] h(2,3)
    have c: "scan_record s = Continue ?s1" and l: "scan_loop ?e ?s1 = scan_of x"
      using t by simp_all
    from h(1) have "scan_steps n ?e (start_state x) = Some s"
      by (simp add: data_record_at_def)
    from passed_byte_unchanged [OF assms this c l h(4) _ h(6)] h(5) show ?thesis
      by simp
  qed
  have E: "y ! i = x ! i"
    if h: "scan_steps n ?e (start_state x) = Some s" "pos s < ?e"
      "definition_header (data s ! pos s)" "scan_record s = Continue s'"
      "pos s \<le> i" "i < pos s'" "i < length x - 2" for n s s' i
  proof -
    note q = reached_facts [OF v h(1)]
    from h(2) end_pos_of_le [of x] q(1) have ltp: "pos s < length (data s)" by arith
    from scan_loop_Continue [OF h(2) ltp h(4)] q(3)
    have l: "scan_loop ?e s' = scan_of x" by simp
    from h(4) ltp h(3) have "definition_record (data s ! pos s) (pos s + 1) s = Continue s'"
      by (simp add: scan_record_definition)
    then have "data s' = data s" using definition_record_data by blast
    then have "data s' ! i = data s ! i" by simp
    from passed_byte_unchanged [OF assms h(1,4) l h(5,6,7) this] show ?thesis .
  qed
  from A B C D E show ?thesis by blast
qed


theorem only_identity_fields_change_witness:
  "convert_fit file_id_only = Inr file_id_only_converted
   \<and> 29 < length file_id_only - 2
   \<and> file_id_only_converted ! 29 \<noteq> file_id_only ! 29
   \<and> (\<exists>n s df k. data_record_at file_id_only n s df
          \<and> (global_msg_num df = 0 \<or> global_msg_num df = 23)
          \<and> k < length (msg_fields df)
          \<and> target (global_msg_num df) (msg_fields df ! k)
          \<and> in_field (msg_fields df) (pos s + 1) k 29)"
proof -
  have i: "29 < length file_id_only - 2"
    and neq: "file_id_only_converted ! 29 \<noteq> file_id_only ! 29"
    by (simp_all add: file_id_only_def file_id_only_converted_def)
  note th = only_identity_fields_change [OF convert_file_id_only]
  from th have "\<forall>i < length file_id_only - 2. file_id_only_converted ! i \<noteq> file_id_only ! i \<longrightarrow>
            (1 \<le> i \<and> i \<le> 7)
            \<or> (\<exists>n s df k. data_record_at file_id_only n s df
                  \<and> (global_msg_num df = 0 \<or> global_msg_num df = 23)
                  \<and> k < length (msg_fields df)
                  \<and> target (global_msg_num df) (msg_fields df ! k)
                  \<and> in_field (msg_fields df) (pos s + 1) k i)"
    by (rule conjunct2 [THEN conjunct1])
  with i neq have "(1 \<le> (29::nat) \<and> (29::nat) \<le> 7)
            \<or> (\<exists>n s df k. data_record_at file_id_only n s df
                  \<and> (global_msg_num df = 0 \<or> global_msg_num df = 23)
                  \<and> k < length (msg_fields df)
                  \<and> target (global_msg_num df) (msg_fields df ! k)
                  \<and> in_field (msg_fields df) (pos s + 1) k 29)"
    by blast
  with i neq convert_file_id_only show ?thesis by simp
qed

subsection \<open>Scanning a buffer that already holds the patches\<close>

lemma splice_id:
  assumes "off + length bs \<le> length d" and "\<forall>j < length bs. d ! (off + j) = bs ! j"
  shows "splice d off bs = d"
proof (rule nth_equalityI)
  show "length (splice d off bs) = length d"
    by (rule length_splice [OF assms(1)])
next
  fix i assume "i < length (splice d off bs)"
  show "splice d off bs ! i = d ! i"
  proof (cases "off \<le> i \<and> i < off + length bs")
    case True
    then have "i - off < length bs" by arith
    with assms(2) have "d ! (off + (i - off)) = bs ! (i - off)" by blast
    with True nth_splice_inside [OF assms(1), of i] show ?thesis by simp
  next
    case False
    then have "i < off \<or> off + length bs \<le> i" by arith
    from nth_splice_outside [OF assms(1) this] show ?thesis .
  qed
qed

lemma splice_splice_id:
  assumes "off + length bs \<le> length d"
  shows "splice (splice d off bs) off bs = splice d off bs"
proof (rule splice_id)
  show "off + length bs \<le> length (splice d off bs)"
    using assms by (simp add: length_splice)
next
  show "\<forall>j < length bs. splice d off bs ! (off + j) = bs ! j"
    using nth_splice_inside [OF assms] by simp
qed

lemma pack_H_unpack_H: "pack_H (unpack_H d off) = [d ! off, d ! (off + 1)]"
proof -
  let ?a = "unat (d ! off)" and ?b = "unat (d ! (off + 1))"
  have "?a < 2 ^ LENGTH(8)" by (rule unsigned_less)
  then have a: "?a < 256" by simp
  then have "(?a + 256 * ?b) mod 256 = ?a" and "(?a + 256 * ?b) div 256 = ?b"
    by simp_all
  then show ?thesis
    by (simp add: pack_H_def unpack_H_def)
qed

text \<open>
  A write on a buffer that already holds what the write leaves there changes nothing.
\<close>

lemma field_write_absorb:
  assumes "q + fst (snd f) \<le> length (data s)" "q + fst (snd f) \<le> length d'"
    and "\<forall>i. q \<le> i \<and> i < q + fst (snd f) \<longrightarrow> d' ! i = data (field_write g f q s) ! i"
  shows "field_write g f q (s\<lparr>data := d'\<rparr>) = (field_write g f q s)\<lparr>data := d'\<rparr>"
proof -
  obtain n sz ty where f: "f = (n, sz, ty)" by (cases f)
  have sp: "splice d' q (pack_H v) = d'"
    if "sz = 2" "\<forall>i. q \<le> i \<and> i < q + 2 \<longrightarrow> d' ! i = splice (data s) q (pack_H v) ! i" for v
  proof (rule splice_id)
    show "q + length (pack_H v) \<le> length d'"
      using assms(2) f that(1) by (simp add: pack_H_def)
  next
    have fit: "q + length (pack_H v) \<le> length (data s)"
      using assms(1) f that(1) by (simp add: pack_H_def)
    show "\<forall>j < length (pack_H v). d' ! (q + j) = pack_H v ! j"
    proof (intro allI impI)
      fix j assume j: "j < length (pack_H v)"
      then have "q \<le> q + j \<and> q + j < q + 2" by (simp add: pack_H_def)
      with that(2) have "d' ! (q + j) = splice (data s) q (pack_H v) ! (q + j)" by blast
      also have "\<dots> = pack_H v ! j"
        using nth_splice_inside [OF fit, of "q + j"] j by simp
      finally show "d' ! (q + j) = pack_H v ! j" .
    qed
  qed
  have up: "d'[q := 4] = d'" if "sz = 1" "d' ! q = (data s)[q := 4] ! q"
  proof -
    from assms(1) f that(1) have "q < length (data s)" by simp
    with that(2) have "d' ! q = 4" by simp
    then show ?thesis by (metis list_update_id)
  qed
  note a = assms(3) [unfolded f]
  consider (type) "g = 0" "n = 0" "sz = 1"
    | (manufacturer) "g = 0" "n = 1" "sz = 2"
    | (product) "g = 0" "n = 2" "sz = 2"
    | (manufacturer') "g \<noteq> 0" "n = 2" "sz = 2"
    | (product') "g \<noteq> 0" "n = 4" "sz = 2"
    | (other) "\<not> (g = 0 \<and> (n = 0 \<and> sz = 1 \<or> n = 1 \<and> sz = 2 \<or> n = 2 \<and> sz = 2))"
        "\<not> (g \<noteq> 0 \<and> (n = 2 \<and> sz = 2 \<or> n = 4 \<and> sz = 2))"
    by blast
  then show ?thesis
  proof cases
    case type
    with a have "d' ! q = (data s)[q := 4] ! q" by (simp add: field_write_def)
    from up [OF type(3) this] type show ?thesis by (simp add: f field_write_def)
  next
    case manufacturer
    with a have "\<forall>i. q \<le> i \<and> i < q + 2 \<longrightarrow>
        d' ! i = splice (data s) q (pack_H 1) ! i" by (simp add: field_write_def)
    from sp [OF manufacturer(3) this] manufacturer show ?thesis
      by (simp add: f field_write_def)
  next
    case product
    with a have "\<forall>i. q \<le> i \<and> i < q + 2 \<longrightarrow>
        d' ! i = splice (data s) q (pack_H 3122) ! i" by (simp add: field_write_def)
    from sp [OF product(3) this] product show ?thesis
      by (simp add: f field_write_def)
  next
    case manufacturer'
    with a have "\<forall>i. q \<le> i \<and> i < q + 2 \<longrightarrow>
        d' ! i = splice (data s) q (pack_H 1) ! i" by (simp add: field_write_def)
    from sp [OF manufacturer'(3) this] manufacturer' show ?thesis
      by (simp add: f field_write_def)
  next
    case product'
    with a have "\<forall>i. q \<le> i \<and> i < q + 2 \<longrightarrow>
        d' ! i = splice (data s) q (pack_H 3122) ! i" by (simp add: field_write_def)
    from sp [OF product'(3) this] product' show ?thesis
      by (simp add: f field_write_def)
  next
    case other
    then have "\<And>s. field_write g (n, sz, ty) q s = s"
      by (auto simp: field_write_def)
    then show ?thesis by (simp add: f)
  qed
qed

lemma patch_fields_absorb:
  assumes "\<forall>i. p + off \<le> i \<and> i < p + off + message_size fs \<and> i < length (data s) \<longrightarrow>
              d' ! i = data (patch_fields g fs p off s) ! i"
    and "length d' = length (data s)
         \<or> length (data s) \<le> length d' \<and> p + off + message_size fs \<le> length (data s)"
  shows "patch_fields g fs p off (s\<lparr>data := d'\<rparr>) = (patch_fields g fs p off s)\<lparr>data := d'\<rparr>"
  using assms
proof (induction fs arbitrary: off s)
  case Nil
  show ?case by simp
next
  case (Cons f fs)
  let ?q = "p + off" and ?sz = "fst (snd f)"
  show ?case
  proof (cases "?q + ?sz > length (data s)")
    case True
    with Cons.prems(2) have "length d' = length (data s)" by auto
    with True show ?thesis by simp
  next
    case False
    then have fit: "?q + ?sz \<le> length (data s)" by simp
    with Cons.prems(2) have fit': "?q + ?sz \<le> length d'" by auto
    let ?s1 = "field_write g f ?q s"
    have l1: "length (data ?s1) = length (data s)"
      by (rule field_write_keeps [OF fit])
    have res: "patch_fields g (f # fs) p off s = patch_fields g fs p (off + ?sz) ?s1"
      using fit by simp
    have "d' ! i = data ?s1 ! i" if "?q \<le> i \<and> i < ?q + ?sz" for i
    proof -
      from that fit have "?q \<le> i \<and> i < ?q + message_size (f # fs) \<and> i < length (data s)"
        by simp
      with Cons.prems(1) have "d' ! i = data (patch_fields g (f # fs) p off s) ! i" by blast
      also have "\<dots> = data ?s1 ! i"
        unfolding res using that patch_fields_frame [of i p "off + ?sz" fs g ?s1] by simp
      finally show ?thesis .
    qed
    then have w: "field_write g f ?q (s\<lparr>data := d'\<rparr>) = ?s1\<lparr>data := d'\<rparr>"
      using field_write_absorb [OF fit fit'] by blast
    have "patch_fields g fs p (off + ?sz) (?s1\<lparr>data := d'\<rparr>)
        = (patch_fields g fs p (off + ?sz) ?s1)\<lparr>data := d'\<rparr>"
    proof (rule Cons.IH)
      show "\<forall>i. p + (off + ?sz) \<le> i \<and> i < p + (off + ?sz) + message_size fs
          \<and> i < length (data ?s1) \<longrightarrow> d' ! i = data (patch_fields g fs p (off + ?sz) ?s1) ! i"
        using Cons.prems(1) res l1 by (simp add: add.assoc)
      show "length d' = length (data ?s1)
         \<or> length (data ?s1) \<le> length d' \<and> p + (off + ?sz) + message_size fs \<le> length (data ?s1)"
        using Cons.prems(2) l1 by (simp add: add.assoc)
    qed
    with w fit fit' show ?thesis by simp
  qed
qed

lemma read_fields_replay:
  assumes "\<forall>i. p \<le> i \<and> i < snd (read_fields n d p acc) \<longrightarrow> d' ! i = d ! i"
    and "length d' = length d
         \<or> length d \<le> length d' \<and> snd (read_fields n d p acc) = p + 3 * n"
  shows "read_fields n d' p acc = read_fields n d p acc"
  using assms
proof (induction n arbitrary: p acc)
  case 0
  show ?case by simp
next
  case (Suc n)
  show ?case
  proof (cases "p + 3 > length d")
    case True
    with Suc.prems(2) have "length d' = length d" by auto
    with True show ?thesis by simp
  next
    case False
    let ?acc = "acc @ [(unat (d ! p), unat (d ! (p + 1)), unat (d ! (p + 2)))]"
    from False have r: "read_fields (Suc n) d p acc = read_fields n d (p + 3) ?acc" by simp
    from read_fields_pos [of "p + 3" n d ?acc] r
    have ge: "p + 3 \<le> snd (read_fields (Suc n) d p acc)" by simp
    with Suc.prems(1) have b: "d' ! p = d ! p" "d' ! (p + 1) = d ! (p + 1)"
      "d' ! (p + 2) = d ! (p + 2)" by simp_all
    from False Suc.prems(2) have g': "\<not> p + 3 > length d'" by auto
    have "read_fields n d' (p + 3) ?acc = read_fields n d (p + 3) ?acc"
    proof (rule Suc.IH)
      show "\<forall>i. p + 3 \<le> i \<and> i < snd (read_fields n d (p + 3) ?acc) \<longrightarrow> d' ! i = d ! i"
        using Suc.prems(1) r by simp
      show "length d' = length d
         \<or> length d \<le> length d' \<and> snd (read_fields n d (p + 3) ?acc) = p + 3 + 3 * n"
        using Suc.prems(2) r by (auto simp: add.assoc)
    qed
    with False g' b show ?thesis by simp
  qed
qed

lemma read_fields_le: "p \<le> length d \<Longrightarrow> snd (read_fields n d p acc) \<le> length d"
proof (induction n arbitrary: p acc)
  case 0
  then show ?case by simp
next
  case (Suc n)
  show ?case
  proof (cases "p + 3 > length d")
    case True
    with Suc.prems show ?thesis by simp
  next
    case False
    then have "p + 3 \<le> length d" by simp
    from Suc.IH [OF this] False show ?thesis by simp
  qed
qed

text \<open>
  One pass of the loop body on a buffer \<open>d'\<close> that agrees with the outcome of that same
  pass on the bytes of the record: the pass goes the same way and leaves \<open>d'\<close> as it is.
  \<open>d'\<close> has the same length, or is longer while the record is whole.
\<close>

lemma scan_record_replay:
  assumes c: "scan_record s = Continue s1"
    and agree: "\<forall>i. pos s \<le> i \<and> i < pos s1 \<and> i < length (data s) \<longrightarrow> d' ! i = data s1 ! i"
    and guard: "length d' = length (data s)
         \<or> length (data s) \<le> length d' \<and> pos s1 \<le> length (data s)
           \<and> (definition_header (data s ! pos s) \<longrightarrow>
                 pos s1 = pos s + 6 + 3 * unat (data s ! (pos s + 5)))"
  shows "scan_record (s\<lparr>data := d'\<rparr>) = Continue (s1\<lparr>data := d'\<rparr>)"
proof -
  let ?s' = "s\<lparr>data := d'\<rparr>"
  from c have lt: "pos s < length (data s)"
    by (auto simp: scan_record_def split: if_splits)
  with guard have lt': "pos ?s' < length (data ?s')" by auto
  note k = scan_record_Continue [OF c]
  have hb: "d' ! pos s = data s ! pos s"
    using agree lt k scan_record_frame [OF c, of "pos s"] by simp
  show ?thesis
  proof (cases "definition_header (data s ! pos s)")
    case True
    let ?p = "pos s + 1" and ?d = "data s"
    from c lt True have dr: "definition_record (?d ! pos s) ?p s = Continue s1"
      by (simp add: scan_record_definition)
    then have ds: "data s1 = ?d" using definition_record_data by blast
    from dr have room: "?p + 4 < length ?d"
      by (auto simp: definition_record_unfold split: if_splits)
    let ?n = "unat (?d ! (?p + 4))"
    obtain fs q where rf: "read_fields ?n ?d (?p + 5) [] = (fs, q)"
      by (cases "read_fields ?n ?d (?p + 5) []") auto
    from dr room rf have s1: "s1 = s\<lparr>pos := q,
        local_definitions := (local_definitions s)
          (unat (?d ! pos s AND 0x0F) \<mapsto>
             \<lparr>global_msg_num = unpack_H ?d (?p + 2), msg_fields = fs\<rparr>),
        file_creator_found := (file_creator_found s \<or> unpack_H ?d (?p + 2) = 49)\<rparr>"
      by (simp add: definition_record_unfold)
    then have q: "pos s1 = q" by simp
    from read_fields_pos [of "?p + 5" ?n ?d "[]"] rf have qge: "?p + 5 \<le> q" by simp
    from read_fields_le [of "?p + 5" ?d ?n "[]"] room rf have qle: "q \<le> length ?d" by simp
    have same: "d' ! i = ?d ! i" if "pos s \<le> i" "i < q" for i
      using agree that qle q ds by simp
    have "d' ! (?p + 2) = ?d ! (?p + 2)" and "d' ! (?p + 2 + 1) = ?d ! (?p + 2 + 1)"
      using same [of "?p + 2"] same [of "?p + 2 + 1"] qge by simp_all
    then have g: "unpack_H d' (?p + 2) = unpack_H ?d (?p + 2)"
      unfolding unpack_H_def by (simp only:)
    have n: "d' ! (?p + 4) = ?d ! (?p + 4)"
      using same [of "?p + 4"] qge by simp
    have "read_fields ?n d' (?p + 5) [] = read_fields ?n ?d (?p + 5) []"
    proof (rule read_fields_replay)
      show "\<forall>i. ?p + 5 \<le> i \<and> i < snd (read_fields ?n ?d (?p + 5) []) \<longrightarrow>
          d' ! i = ?d ! i"
        using same rf by simp
      show "length d' = length ?d
         \<or> length ?d \<le> length d' \<and> snd (read_fields ?n ?d (?p + 5) []) = ?p + 5 + 3 * ?n"
        using guard True rf q by (auto simp: add.commute)
    qed
    with rf have rf': "read_fields ?n d' (?p + 5) [] = (fs, q)" by simp
    from room guard have room': "?p + 4 < length d'" by auto
    have "definition_record (?d ! pos s) ?p ?s' = Continue (s1\<lparr>data := d'\<rparr>)"
      using room' rf' g n by (simp add: definition_record_unfold s1)
    moreover have "scan_record ?s' = definition_record (data ?s' ! pos ?s') (pos ?s' + 1) ?s'"
      using True hb by (intro scan_record_definition [OF lt']) simp
    ultimately show ?thesis using hb by simp
  next
    case False
    let ?p = "pos s + 1"
    note sr = scan_record_data [OF lt False]
    from c sr obtain df where df: "bound_definition s = Some df"
      by (cases "bound_definition s") auto
    let ?fs = "msg_fields df" and ?g = "global_msg_num df"
    have df': "bound_definition ?s' = Some df"
      using df hb by (simp add: bound_definition_def)
    have nd': "\<not> definition_header (data ?s' ! pos ?s')"
      using False hb by simp
    note sr' = scan_record_data [OF lt' nd']
    from c sr df have p1: "pos s1 = ?p + message_size ?fs"
      by (auto split: if_splits)
    have len_le: "length (data s) \<le> length d'" using guard by auto
    have ab: "patch_fields g ?fs ?p 0 ?s' = (patch_fields g ?fs ?p 0 s)\<lparr>data := d'\<rparr>"
      if "data s1 = data (patch_fields g ?fs ?p 0 s)" for g
    proof (rule patch_fields_absorb)
      show "\<forall>i. ?p + 0 \<le> i \<and> i < ?p + 0 + message_size ?fs \<and> i < length (data s) \<longrightarrow>
          d' ! i = data (patch_fields g ?fs ?p 0 s) ! i"
        using agree p1 that by simp
      show "length d' = length (data s)
         \<or> length (data s) \<le> length d' \<and> ?p + 0 + message_size ?fs \<le> length (data s)"
        using guard p1 by auto
    qed
    show ?thesis
    proof (cases "?g = 0")
      case True
      with c sr df have ok: "\<not> ?p + min (message_size ?fs) 16 > length (data s)"
        and s1: "s1 = (patch_fields 0 ?fs ?p 0 s)\<lparr>pos := ?p + message_size ?fs\<rparr>"
        by (auto split: if_splits)
      from ok len_le have ok': "\<not> ?p + min (message_size ?fs) 16 > length d'" by arith
      from s1 have "data s1 = data (patch_fields 0 ?fs ?p 0 s)" by simp
      from ab [OF this] ok' True df' show ?thesis
        by (simp add: sr' s1)
    next
      case g0: False
      show ?thesis
      proof (cases "?g = 23")
        case True
        with c sr df g0
        have s1: "s1 = (patch_fields 23 ?fs ?p 0 s)\<lparr>pos := ?p + message_size ?fs\<rparr>"
          by auto
        then have "data s1 = data (patch_fields 23 ?fs ?p 0 s)" by simp
        from ab [OF this] True df' show ?thesis
          by (simp add: sr' s1)
      next
        case False
        with c sr df g0 have s1: "s1 = s\<lparr>pos := ?p + message_size ?fs\<rparr>" by auto
        with False g0 df' show ?thesis
          by (simp add: sr')
      qed
    qed
  qed
qed

lemma scan_record_replay_Break:
  assumes "scan_record s = Break s1" and "pos s < length (data s)"
    and "length d' = length (data s)" and "d' ! pos s = data s ! pos s"
  shows "scan_record (s\<lparr>data := d'\<rparr>) = Break (s1\<lparr>data := d'\<rparr>)"
proof -
  let ?s' = "s\<lparr>data := d'\<rparr>"
  from assms(2,3) have lt': "pos ?s' < length (data ?s')" by simp
  show ?thesis
  proof (cases "definition_header (data s ! pos s)")
    case True
    then have "definition_header (data ?s' ! pos ?s')" using assms(4) by simp
    note sr' = scan_record_definition [OF lt' this]
    from assms(1,2) True
    have "definition_record (data s ! pos s) (pos s + 1) s = Break s1"
      by (simp add: scan_record_definition)
    then have "length (data s) \<le> pos s + 1 + 4" and "s1 = s\<lparr>pos := pos s + 1\<rparr>"
      by (auto simp: definition_record_unfold split: if_splits prod.splits)
    then show ?thesis
      using assms(3,4) by (simp add: sr' definition_record_unfold)
  next
    case False
    then have nd': "\<not> definition_header (data ?s' ! pos ?s')" using assms(4) by simp
    note sr' = scan_record_data [OF lt' nd']
    from assms(1) scan_record_data [OF assms(2) False]
    have "bound_definition s = None" and "s1 = s\<lparr>pos := pos s + 1\<rparr>"
      by (auto split: option.splits if_splits)
    then show ?thesis
      using assms(4) by (simp add: sr' bound_definition_def)
  qed
qed

lemma scan_record_Break_pos:
  assumes "scan_record s = Break s1" and "pos s < length (data s)"
  shows "pos s1 = pos s + 1"
proof (cases "definition_header (data s ! pos s)")
  case True
  with assms show ?thesis
    by (auto simp: scan_record_definition definition_record_unfold split: if_splits prod.splits)
next
  case False
  with assms show ?thesis
    by (auto simp: scan_record_data split: option.splits if_splits)
qed

text \<open>
  The loop run again, from the same state, on a buffer of the same length that agrees
  with the result of the first run on the bytes the first run went over.
\<close>

lemma scan_loop_replay:
  "scan_loop end_pos s = Inr t \<Longrightarrow> length d' = length (data s) \<Longrightarrow>
   \<forall>i. pos s \<le> i \<and> i < pos t \<and> i < length d' \<longrightarrow> d' ! i = data t ! i \<Longrightarrow>
     scan_loop end_pos (s\<lparr>data := d'\<rparr>) = Inr (t\<lparr>data := d'\<rparr>)"
proof (induction end_pos s rule: scan_loop.induct)
  case (1 end_pos s)
  let ?s' = "s\<lparr>data := d'\<rparr>"
  show ?case
  proof (cases "pos s < end_pos \<and> pos s < length (data s)")
    case False
    with "1.prems"(1) have "t = s" by (simp add: scan_loop_stop)
    moreover from False "1.prems"(2) have "scan_loop end_pos ?s' = Inr ?s'"
      by (intro scan_loop_stop) simp
    ultimately show ?thesis by simp
  next
    case True
    then have cond': "pos ?s' < end_pos" "pos ?s' < length (data ?s')"
      using "1.prems"(2) by simp_all
    show ?thesis
    proof (cases "scan_record s")
      case (Continue s1)
      with True "1.prems"(1) have l1: "scan_loop end_pos s1 = Inr t"
        by (simp add: scan_loop_Continue)
      note k = scan_record_Continue [OF Continue]
      note k1 = scan_loop_keeps [OF l1]
      have "\<forall>i. pos s \<le> i \<and> i < pos s1 \<and> i < length (data s) \<longrightarrow> d' ! i = data s1 ! i"
        using "1.prems"(2,3) k1 by auto
      from scan_record_replay [OF Continue this] "1.prems"(2)
      have c': "scan_record ?s' = Continue (s1\<lparr>data := d'\<rparr>)" by simp
      have "scan_loop end_pos (s1\<lparr>data := d'\<rparr>) = Inr (t\<lparr>data := d'\<rparr>)"
      proof (rule "1.IH" [OF True Continue l1])
        show "length d' = length (data s1)" using "1.prems"(2) k by simp
        show "\<forall>i. pos s1 \<le> i \<and> i < pos t \<and> i < length d' \<longrightarrow> d' ! i = data t ! i"
          using "1.prems"(3) k by auto
      qed
      with scan_loop_Continue [OF cond' c'] show ?thesis by simp
    next
      case (Break s1)
      with True "1.prems"(1) have t: "t = s1" by (simp add: scan_loop_Break)
      from scan_record_Break_pos [OF Break] True have p: "pos s1 = pos s + 1" by simp
      from scan_record_Break [OF Break] have d: "data s1 = data s" by simp
      from "1.prems"(2,3) t p d True have "d' ! pos s = data s ! pos s" by simp
      from scan_record_replay_Break [OF Break _ "1.prems"(2) this] True
      have "scan_record ?s' = Break (s1\<lparr>data := d'\<rparr>)" by simp
      from scan_loop_Break [OF cond' this] t show ?thesis by simp
    next
      case (Raise e)
      with True "1.prems"(1) show ?thesis by (simp add: scan_loop_Raise)
    qed
  qed
qed

text \<open>
  \<open>definitions_whole n s\<close>: none of the next \<open>n\<close> records is a definition whose declared
  fields were cut short by the end of the buffer.
\<close>

fun definitions_whole :: "nat \<Rightarrow> scan_state \<Rightarrow> bool" where
  "definitions_whole 0 s = True"
| "definitions_whole (Suc n) s =
     (case scan_record s of
        Continue s' \<Rightarrow>
          (if definition_header (data s ! pos s)
           then pos s' = pos s + 6 + 3 * unat (data s ! (pos s + 5))
           else True)
          \<and> definitions_whole n s'
      | Break s' \<Rightarrow> True
      | Raise e \<Rightarrow> True)"

text \<open>
  The first \<open>n\<close> records scanned again on a longer buffer, up to a later \<open>end_pos\<close>, when
  they all lie inside the shorter buffer and the definitions among them are whole.
\<close>

lemma scan_steps_replay:
  "scan_steps n end_pos s = Some s1 \<Longrightarrow> definitions_whole n s \<Longrightarrow>
   length (data s) \<le> length d' \<Longrightarrow> end_pos \<le> end_pos' \<Longrightarrow> pos s1 \<le> length (data s) \<Longrightarrow>
   \<forall>i. pos s \<le> i \<and> i < pos s1 \<longrightarrow> d' ! i = data s1 ! i \<Longrightarrow>
     scan_steps n end_pos' (s\<lparr>data := d'\<rparr>) = Some (s1\<lparr>data := d'\<rparr>)"
proof (induction n arbitrary: s)
  case 0
  then show ?case by simp
next
  case (Suc n)
  from Suc.prems(1) obtain sa where cond: "pos s < end_pos" "pos s < length (data s)"
    and c: "scan_record s = Continue sa" and rest: "scan_steps n end_pos sa = Some s1"
    by (auto split: if_splits step_result.splits)
  note k = scan_record_Continue [OF c]
  note ks = scan_steps_keeps [OF rest]
  from Suc.prems(2) c have whole: "definition_header (data s ! pos s) \<longrightarrow>
      pos sa = pos s + 6 + 3 * unat (data s ! (pos s + 5))"
    and dw: "definitions_whole n sa"
    by (simp_all split: if_splits)
  have "\<forall>i. pos s \<le> i \<and> i < pos sa \<and> i < length (data s) \<longrightarrow> d' ! i = data sa ! i"
    using Suc.prems(6) ks by auto
  moreover have "length d' = length (data s)
         \<or> length (data s) \<le> length d' \<and> pos sa \<le> length (data s)
           \<and> (definition_header (data s ! pos s) \<longrightarrow>
                 pos sa = pos s + 6 + 3 * unat (data s ! (pos s + 5)))"
    using Suc.prems(3,5) ks whole by auto
  ultimately have c': "scan_record (s\<lparr>data := d'\<rparr>) = Continue (sa\<lparr>data := d'\<rparr>)"
    by (rule scan_record_replay [OF c])
  have "scan_steps n end_pos' (sa\<lparr>data := d'\<rparr>) = Some (s1\<lparr>data := d'\<rparr>)"
  proof (rule Suc.IH [OF rest dw _ Suc.prems(4)])
    show "length (data sa) \<le> length d'" using Suc.prems(3) k by simp
    show "pos s1 \<le> length (data sa)" using Suc.prems(5) k by simp
    show "\<forall>i. pos sa \<le> i \<and> i < pos s1 \<longrightarrow> d' ! i = data s1 ! i"
      using Suc.prems(6) k by auto
  qed
  with c' cond Suc.prems(3,4) show ?case by simp
qed

lemma read_fields_append:
  "read_fields n (pre @ d) (length pre + p) acc =
     (case read_fields n d p acc of (fs, q) \<Rightarrow> (fs, length pre + q))"
proof (induction n arbitrary: p acc)
  case 0
  show ?case by simp
next
  case (Suc n)
  have b: "(pre @ d) ! (length pre + p + j) = d ! (p + j)" for j
    by (simp add: nth_append)
  show ?case
  proof (cases "p + 3 > length d")
    case True
    then show ?thesis by simp
  next
    case False
    with Suc [of "p + 3"] b [of 0] b [of 1] b [of 2] show ?thesis
      by (simp add: add.assoc)
  qed
qed

lemma unpack_H_append: "unpack_H (pre @ d) (length pre + k) = unpack_H d k"
  by (simp add: unpack_H_def nth_append)

text \<open>
  The loop on the spliced block itself: its definition record binds local type 7 to
  global message 49 and sets \<open>file_creator_found\<close>, its data record is skipped.
\<close>

lemma scan_file_creator_block:
  assumes d: "data s = pre @ create_file_creator_message @ [c0, c1]"
    and p: "pos s = length pre"
  shows "scan_loop (length pre + 16) s =
     Inr (s\<lparr>pos := length pre + 16,
            local_definitions := (local_definitions s)
              (7 \<mapsto> \<lparr>global_msg_num = 49, msg_fields = [(0, 2, 132), (1, 1, 2)]\<rparr>),
            file_creator_found := True\<rparr>)"
proof -
  let ?B = "length pre"
  let ?blk = "[0x47, 0, 0, 0x31, 0, 2, 0, 2, 0x84, 1, 1, 0x02, 7, 0xCF, 0x03, 0xFF, c0, c1] :: bytes"
  have dd: "data s = pre @ ?blk"
    by (simp add: d create_file_creator_message_def pack_H_def)
  have len: "length (data s) = ?B + 18" by (simp add: dd)
  have b: "data s ! (?B + j) = ?blk ! j" for j
    by (simp add: dd nth_append)
  have b0: "data s ! ?B = 0x47" using b [of 0] by simp
  let ?sa = "s\<lparr>pos := ?B + 12,
      local_definitions := (local_definitions s)
        (7 \<mapsto> \<lparr>global_msg_num = 49, msg_fields = [(0, 2, 132), (1, 1, 2)]\<rparr>),
      file_creator_found := True\<rparr>"
  have e: "?B + 1 + 4 = ?B + 5" "?B + 1 + 5 = ?B + 6" "?B + 1 + 2 = ?B + 3" by simp_all
  have f1: "\<not> length (data s) \<le> ?B + 1 + 4" by (simp add: len)
  have f2: "data s ! (?B + 1 + 4) = 2"
    by (simp only: e b) simp
  have f3: "read_fields (unat (2 :: byte)) (data s) (?B + 1 + 5) []
      = ([(0, 2, 132), (1, 1, 2)], ?B + 12)"
    unfolding dd e read_fields_append
    by (simp add: read_fields_unfold del: read_fields.simps)
  have f4: "unpack_H (data s) (?B + 1 + 2) = 49"
    unfolding dd e unpack_H_append by (simp add: unpack_H_def)
  have dh: "definition_header (0x47 :: byte)"
    by (simp add: definition_header_def)
  have lt: "pos s < length (data s)" using p len by simp
  have "scan_record s = definition_record (0x47) (?B + 1) s"
    using scan_record_definition [OF lt] dh b0 p by simp
  also have "\<dots> = Continue ?sa"
    unfolding definition_record_unfold
    by (simp only: f1 f2 f3 f4 if_False prod.case) simp
  finally have c1: "scan_record s = Continue ?sa" .
  have lta: "pos ?sa < length (data ?sa)" using len by simp
  have ba: "data ?sa ! pos ?sa = 7" using b [of 12] by simp
  have nd: "\<not> definition_header (data ?sa ! pos ?sa)"
    unfolding ba by (simp add: definition_header_def)
  have bd: "bound_definition ?sa
      = Some \<lparr>global_msg_num = 49, msg_fields = [(0, 2, 132), (1, 1, 2)]\<rparr>"
    unfolding bound_definition_def ba by simp
  let ?sb = "?sa\<lparr>pos := ?B + 16\<rparr>"
  have c2: "scan_record ?sa = Continue ?sb"
    using scan_record_data [OF lta nd] bd by (simp add: add.assoc)
  have "scan_loop (?B + 16) s = scan_loop (?B + 16) ?sa"
    using c1 lt p by (intro scan_loop_Continue) simp_all
  also have "\<dots> = scan_loop (?B + 16) ?sb"
    using c2 lta by (intro scan_loop_Continue) simp_all
  also have "\<dots> = Inr ?sb"
    by (intro scan_loop_stop) simp
  finally show ?thesis by simp
qed

lemma update_crc_fixed:
  assumes "calculate_crc16 (take (length y - 2) y) = unpack_H y (length y - 2)"
  shows "update_crc y = Inr y"
proof (cases "16 \<le> length y")
  case False
  then show ?thesis by (simp add: update_crc_def)
next
  case True
  let ?o = "length y - 2"
  have c: "unpack_H y ?o < 65536"
    using calculate_crc16_bound [of "take ?o y"] assms by simp
  have fit: "?o + 2 \<le> length y" using True by simp
  have "splice y ?o (pack_H (unpack_H y ?o)) = y"
  proof (rule splice_id)
    show "?o + length (pack_H (unpack_H y ?o)) \<le> length y"
      using fit by (simp add: pack_H_unpack_H)
    show "\<forall>j < length (pack_H (unpack_H y ?o)). y ! (?o + j) = pack_H (unpack_H y ?o) ! j"
      by (simp add: pack_H_unpack_H less_Suc_eq numeral_2_eq_2)
  qed
  with True assms c fit show ?thesis
    by (simp add: update_crc_def Let_def pack_into_H_ok)
qed

lemma signature_bytes: "12 \<le> length d \<Longrightarrow> take 4 (drop 8 d) = [d ! 8, d ! 9, d ! 10, d ! 11]"
proof (rule nth_equalityI)
  assume "12 \<le> length d"
  then show "length (take 4 (drop 8 d)) = length [d ! 8, d ! 9, d ! 10, d ! 11]" by simp
next
  fix i assume l: "12 \<le> length d" and "i < length (take 4 (drop 8 d))"
  then have "i < 4" by simp
  then consider "i = 0" | "i = 1" | "i = 2" | "i = 3" by arith
  then show "take 4 (drop 8 d) ! i = [d ! 8, d ! 9, d ! 10, d ! 11] ! i"
    using l by cases simp_all
qed

text \<open>The header of a converted buffer, as the next conversion will read it.\<close>

lemma converted_header:
  assumes "valid_header x" "scan_of x = Inr t" "finish (unpack_I x 4) t = Inr y"
  shows "valid_header y" and "unat (y ! 0) = unat (x ! 0)"
    and "start_state y = (start_state x)\<lparr>data := y\<rparr>"
proof -
  from assms(1) have len: "14 \<le> length x" by (simp add: valid_header_def)
  then have l4: "4 \<le> length x" by simp
  note st = start_state_facts [OF l4]
  note k = scan_of_keeps [OF assms(1,2)]
  from k(1) len have lt: "14 \<le> length (data t)" by simp
  note r = finish_result [OF assms(3) lt]
  have ly: "14 \<le> length y" using r(1) lt by (simp split: if_splits)
  have lo: "y ! i = data (start_state x) ! i" if "i < 4" for i
    using r(2) k that lt by simp
  have hi: "y ! i = x ! i" if "8 \<le> i" "i < 12" for i
    using r(2) k st(5) that lt by simp
  have y0: "y ! 0 = x ! 0" using lo [of 0] st(5) by simp
  then show h: "unat (y ! 0) = unat (x ! 0)" by simp
  have "take 4 (drop 8 y) = take 4 (drop 8 x)"
    using hi [of 8] hi [of 9] hi [of 10] hi [of 11] ly len
    by (simp add: signature_bytes)
  with assms(1) ly h show "valid_header y" by (simp add: valid_header_def)
  have "unat (y ! 1) = 16" and "unpack_H y 2 = 2134"
    using lo [of 1] lo [of 2] lo [of 3] st(3,4) by (simp_all add: unpack_H_def)
  then have "normalize_header y = Inr y"
    by (simp add: normalize_header_def Let_def)
  then show "start_state y = (start_state x)\<lparr>data := y\<rparr>"
    using h by (simp add: start_state_def initial_state_def)
qed

text \<open>
  C2. As stated the claim fails. \<open>compressed_timestamp\<close> is a file with a file_id
  message, a definition of local type 1, and a record with a compressed-timestamp
  header (0xA5: bit 7 set, local type 1, time offset 5), closed by its correct checksum.
  The scan reads the low four bits of 0xA5 as local type 5, finds it unbound and
  stops; a manufacturer field was patched, so a file_creator block is spliced in. The
  scan of the result stops at the same byte, before the block, and a second block is
  spliced in: the second conversion returns 16 bytes more than the first.
\<close>

definition compressed_timestamp :: bytes where
  "compressed_timestamp =
     [12, 16, 86, 8, 23, 0, 0, 0, 0x2E, 0x46, 0x49, 0x54,
      0x40, 0, 0, 0, 0, 1, 1, 2, 0x84,
      0x00, 32, 0,
      0x41, 0, 0, 20, 0, 1, 3, 1, 2,
      0xA5, 120,
      97, 78]"

definition compressed_timestamp_once :: bytes where
  "compressed_timestamp_once =
     [12, 16, 86, 8, 39, 0, 0, 0, 46, 70, 73, 84,
      64, 0, 0, 0, 0, 1, 1, 2, 132,
      0, 1, 0,
      65, 0, 0, 20, 0, 1, 3, 1, 2,
      165, 120,
      71, 0, 0, 49, 0, 2, 0, 2, 132, 1, 1, 2, 7, 207, 3, 255,
      142, 108]"

definition compressed_timestamp_twice :: bytes where
  "compressed_timestamp_twice =
     [12, 16, 86, 8, 55, 0, 0, 0, 46, 70, 73, 84,
      64, 0, 0, 0, 0, 1, 1, 2, 132,
      0, 1, 0,
      65, 0, 0, 20, 0, 1, 3, 1, 2,
      165, 120,
      71, 0, 0, 49, 0, 2, 0, 2, 132, 1, 1, 2, 7, 207, 3, 255,
      71, 0, 0, 49, 0, 2, 0, 2, 132, 1, 1, 2, 7, 207, 3, 255,
      170, 255]"

lemma convert_compressed_timestamp:
  "convert_fit compressed_timestamp = Inr compressed_timestamp_once"
  by (simp add: compressed_timestamp_def compressed_timestamp_once_def run_simps
      del: read_fields.simps)

lemma convert_compressed_timestamp_once:
  "convert_fit compressed_timestamp_once = Inr compressed_timestamp_twice"
  by (simp add: compressed_timestamp_once_def compressed_timestamp_twice_def run_simps
      del: read_fields.simps)

theorem convert_not_idempotent_counterexample:
  "convert_fit compressed_timestamp = Inr compressed_timestamp_once
   \<and> convert_fit compressed_timestamp_once = Inr compressed_timestamp_twice
   \<and> length compressed_timestamp_twice = length compressed_timestamp_once + 16
   \<and> compressed_timestamp_twice \<noteq> compressed_timestamp_once"
  using convert_compressed_timestamp convert_compressed_timestamp_once
  by (simp add: compressed_timestamp_once_def compressed_timestamp_twice_def)

lemma two_bytes: "length (xs :: bytes) = 2 \<Longrightarrow> \<exists>a b. xs = [a, b]"
  by (cases xs; cases "tl xs") auto

text \<open>
  C2, amended. \<open>convert_fit (convert_fit x) = convert_fit x\<close> for every input on which
  \<open>convert_fit\<close> succeeds and
  \<^item> no manufacturer field was patched, or
  \<^item> a file_creator definition was seen and the scan stopped at or before the trailer, or
  \<^item> the scan went over \<open>n\<close> records that continue it, none of them a definition cut
    short, and so arrived exactly at the trailer, and the payload announced by the
    header reaches at least to the trailer (a well-formed record stream).
  In the last case the second scan passes the same records, then finds the spliced
  file_creator definition, so that no second block is inserted; in each case the fields
  already hold their constants and the same checksum is written again.
\<close>

theorem convert_idempotent_on_whole_streams:
  assumes "convert_fit x = Inr y" and "scan_of x = Inr t"
    and "\<not> manufacturer_changed t
         \<or> file_creator_found t \<and> pos t \<le> length x - 2
         \<or> scan_steps n (end_pos_of x) (start_state x) = Some t
           \<and> definitions_whole n (start_state x)
           \<and> pos t = length x - 2
           \<and> length x - 2 \<le> unat (x ! 0) + unpack_I x 4"
  shows "convert_fit y = Inr y"
proof -
  let ?L = "length x" and ?s0 = "start_state x"
  from convert_fit_Inr [OF assms(1)] assms(2) have v: "valid_header x"
    and f: "finish (unpack_I x 4) t = Inr y"
    by auto
  note ch = converted_header [OF v assms(2) f]
  from v have len: "14 \<le> ?L" and h12: "12 \<le> unat (x ! 0)" by (simp_all add: valid_header_def)
  then have l4: "4 \<le> ?L" by simp
  note st = start_state_facts [OF l4]
  note k = scan_of_keeps [OF v assms(2)]
  from k(1) len have lt: "14 \<le> length (data t)" by simp
  note r = finish_result [OF f lt]
  have loop: "scan_loop (end_pos_of x) ?s0 = Inr t"
    using assms(2) by (simp add: scan_of_def)
  have crc: "update_crc y = Inr y" if mc: "manufacturer_changed t"
  proof -
    from scan_of_patched_length [OF v assms(2) mc] k(1) r(1) have "16 \<le> length y"
      by (simp split: if_splits)
    with r(5) mc show ?thesis by (intro update_crc_fixed) simp
  qed
  have goal: "convert_fit y = Inr y"
    if "scan_of y = Inr t2" "finish (unpack_I y 4) t2 = Inr y" for t2
    using that by (simp add: convert_fit_valid [OF ch(1)])
  show ?thesis
  proof (cases "manufacturer_changed t \<and> \<not> file_creator_found t")
    case False
    with r(1,4) k(1) have ly: "length y = ?L" and same: "\<forall>i < ?L - 2. y ! i = data t ! i"
      by simp_all
    have "y ! i = x ! i" if "4 \<le> i" "i < 8" for i
    proof -
      from that len have "i < ?L - 2" "i \<le> 12" by arith+
      with same k(2) st(5) that show ?thesis by simp
    qed
    from this [of 4] this [of 5] this [of 6] this [of 7]
    have sz: "unpack_I y 4 = unpack_I x 4" by (simp add: unpack_I_def)
    have e: "end_pos_of y = end_pos_of x"
      by (simp add: end_pos_of_def ch(2) sz ly)
    have pt: "manufacturer_changed t \<longrightarrow> pos t \<le> ?L - 2"
      using assms(3) False by auto
    have "scan_loop (end_pos_of x) (?s0\<lparr>data := y\<rparr>) = Inr (t\<lparr>data := y\<rparr>)"
    proof (rule scan_loop_replay [OF loop])
      show "length y = length (data ?s0)" using ly st(2) by simp
      show "\<forall>i. pos ?s0 \<le> i \<and> i < pos t \<and> i < length y \<longrightarrow> y ! i = data t ! i"
      proof (cases "manufacturer_changed t")
        case True
        with pt same show ?thesis by auto
      next
        case False
        with f have "y = data t" by (simp add: finish_unchanged)
        then show ?thesis by simp
      qed
    qed
    then have sy: "scan_of y = Inr (t\<lparr>data := y\<rparr>)"
      by (simp add: scan_of_def e ch(3))
    have "finish (unpack_I y 4) (t\<lparr>data := y\<rparr>) = Inr y"
    proof (cases "manufacturer_changed t")
      case True
      with False crc show ?thesis by (simp add: finish_def)
    next
      case False
      then show ?thesis by (simp add: finish_def)
    qed
    with sy show ?thesis by (rule goal)
  next
    case True
    with assms(3) have steps: "scan_steps n (end_pos_of x) ?s0 = Some t"
      and dw: "definitions_whole n ?s0" and pt: "pos t = ?L - 2"
      and cover: "?L - 2 \<le> unat (x ! 0) + unpack_I x 4"
      by auto
    from True r(1,2,3) k(1) have ly: "length y = ?L + 16"
      and same: "\<forall>i < ?L - 2. i < 4 \<or> 8 \<le> i \<longrightarrow> y ! i = data t ! i"
      and sz: "unpack_I y 4 = unpack_I x 4 + 16"
      and blk: "take 16 (drop (?L - 2) y) = create_file_creator_message"
      by simp_all
    have e: "end_pos_of y = ?L - 2 + 16"
      using cover len by (simp add: end_pos_of_def ch(2) sz ly)
    have "scan_steps n (end_pos_of y) (?s0\<lparr>data := y\<rparr>) = Some (t\<lparr>data := y\<rparr>)"
    proof (rule scan_steps_replay [OF steps dw])
      show "length (data ?s0) \<le> length y" using ly st(2) by simp
      show "end_pos_of x \<le> end_pos_of y" using end_pos_of_le [of x] e by simp
      show "pos t \<le> length (data ?s0)" using pt st(2) by simp
      show "\<forall>i. pos ?s0 \<le> i \<and> i < pos t \<longrightarrow> y ! i = data t ! i"
        using same pt st(6) h12 by auto
    qed
    then have "scan_steps n (end_pos_of y) (start_state y) = Some (t\<lparr>data := y\<rparr>)"
      by (simp add: ch(3))
    from scan_steps_loop [OF this]
    have l1: "scan_of y = scan_loop (end_pos_of y) (t\<lparr>data := y\<rparr>)"
      by (simp add: scan_of_def)
    let ?pre = "take (?L - 2) y"
    have lp: "length ?pre = ?L - 2" using ly by simp
    have "length (drop 16 (drop (?L - 2) y)) = 2" using ly len by simp
    from two_bytes [OF this] obtain c0 c1 where tl: "drop 16 (drop (?L - 2) y) = [c0, c1]"
      by blast
    have "y = ?pre @ drop (?L - 2) y" by simp
    also have "drop (?L - 2) y = take 16 (drop (?L - 2) y) @ drop 16 (drop (?L - 2) y)"
      by (simp only: append_take_drop_id)
    finally have y: "y = ?pre @ create_file_creator_message @ [c0, c1]"
      by (simp only: blk tl)
    let ?t2 = "(t\<lparr>data := y\<rparr>)\<lparr>pos := length ?pre + 16,
        local_definitions := (local_definitions (t\<lparr>data := y\<rparr>))
          (7 \<mapsto> \<lparr>global_msg_num = 49, msg_fields = [(0, 2, 132), (1, 1, 2)]\<rparr>),
        file_creator_found := True\<rparr>"
    have "scan_loop (length ?pre + 16) (t\<lparr>data := y\<rparr>) = Inr ?t2"
    proof (rule scan_file_creator_block)
      show "data (t\<lparr>data := y\<rparr>) = ?pre @ create_file_creator_message @ [c0, c1]"
        using y by simp
      show "pos (t\<lparr>data := y\<rparr>) = length ?pre" using pt lp by simp
    qed
    with l1 e lp have sy: "scan_of y = Inr ?t2" by simp
    have "finish (unpack_I y 4) ?t2 = Inr y"
      using True crc by (simp add: finish_def)
    with sy show ?thesis by (rule goal)
  qed
qed

lemma definitions_whole_unfold:
  "definitions_whole n s =
     (if n = 0 then True
      else case scan_record s of
             Continue s' \<Rightarrow>
               (if definition_header (data s ! pos s)
                then pos s' = pos s + 6 + 3 * unat (data s ! (pos s + 5))
                else True)
               \<and> definitions_whole (n - 1) s'
           | Break s' \<Rightarrow> True
           | Raise e \<Rightarrow> True)"
  by (cases n) (auto split: step_result.splits)

lemma whole_file_id_only:
  "scan_steps 2 (end_pos_of file_id_only) (start_state file_id_only) = Some file_id_only_scanned"
  "definitions_whole 2 (start_state file_id_only)"
  "pos file_id_only_scanned = length file_id_only - 2"
  "length file_id_only - 2 \<le> unat (file_id_only ! 0) + unpack_I file_id_only 4"
  by (simp_all add: file_id_only_def file_id_only_scanned_def definition_header_def
      scan_steps_unfold definitions_whole_unfold scan_simps
      del: read_fields.simps scan_steps.simps definitions_whole.simps)

theorem convert_idempotent_on_whole_streams_witness:
  "convert_fit file_id_only = Inr file_id_only_converted
   \<and> scan_of file_id_only = Inr file_id_only_scanned
   \<and> scan_steps 2 (end_pos_of file_id_only) (start_state file_id_only)
       = Some file_id_only_scanned
   \<and> definitions_whole 2 (start_state file_id_only)
   \<and> pos file_id_only_scanned = length file_id_only - 2
   \<and> length file_id_only - 2 \<le> unat (file_id_only ! 0) + unpack_I file_id_only 4
   \<and> convert_fit file_id_only_converted = Inr file_id_only_converted"
proof -
  note w = whole_file_id_only
  from w have "\<not> manufacturer_changed file_id_only_scanned
         \<or> file_creator_found file_id_only_scanned
           \<and> pos file_id_only_scanned \<le> length file_id_only - 2
         \<or> scan_steps 2 (end_pos_of file_id_only) (start_state file_id_only)
             = Some file_id_only_scanned
           \<and> definitions_whole 2 (start_state file_id_only)
           \<and> pos file_id_only_scanned = length file_id_only - 2
           \<and> length file_id_only - 2 \<le> unat (file_id_only ! 0) + unpack_I file_id_only 4"
    by blast
  from convert_idempotent_on_whole_streams [OF convert_file_id_only scan_of_file_id_only this]
  show ?thesis
    using convert_file_id_only scan_of_file_id_only w by simp
qed

subsection \<open>The manufacturer written\<close>

text \<open>
  What the output holds in the rewritten fields of a file_id or device_info data record
  that the scan passed, for every such field that lies before the trailer.
\<close>

lemma passed_field_values:
  assumes "convert_fit x = Inr y" and "data_record_at x n s df"
    and "global_msg_num df = 0 \<or> global_msg_num df = 23"
    and "k < length (msg_fields df)"
    and "pos s + 1 + field_offset (msg_fields df) k + fst (snd (msg_fields df ! k))
           \<le> length x - 2"
  shows "(global_msg_num df = 0 \<and> fst (msg_fields df ! k) = 1
            \<and> fst (snd (msg_fields df ! k)) = 2 \<longrightarrow>
            unpack_H y (pos s + 1 + field_offset (msg_fields df) k) = 1)
       \<and> (global_msg_num df = 0 \<and> fst (msg_fields df ! k) = 2
            \<and> fst (snd (msg_fields df ! k)) = 2 \<longrightarrow>
            unpack_H y (pos s + 1 + field_offset (msg_fields df) k) = 3122)
       \<and> (global_msg_num df = 23 \<and> fst (msg_fields df ! k) = 2
            \<and> fst (snd (msg_fields df ! k)) = 2 \<longrightarrow>
            unpack_H y (pos s + 1 + field_offset (msg_fields df) k) = 1)
       \<and> (global_msg_num df = 23 \<and> fst (msg_fields df ! k) = 4
            \<and> fst (snd (msg_fields df ! k)) = 2 \<longrightarrow>
            unpack_H y (pos s + 1 + field_offset (msg_fields df) k) = 3122)"
proof -
  let ?fs = "msg_fields df" and ?g = "global_msg_num df"
  let ?q = "pos s + 1 + field_offset ?fs k"
  let ?sz = "fst (snd (?fs ! k))"
  from convert_fit_Inr [OF assms(1)] obtain t where v: "valid_header x"
    and t: "scan_of x = Inr t" and f: "finish (unpack_I x 4) t = Inr y"
    by blast
  from v have len: "14 \<le> length x" by (simp add: valid_header_def)
  from assms(2) have st: "scan_steps n (end_pos_of x) (start_state x) = Some s"
    by (simp add: data_record_at_def)
  note r = reached_facts [OF v st]
  let ?s1 = "(patch_fields ?g ?fs (pos s + 1) 0 s)\<lparr>pos := pos s + 1 + message_size ?fs\<rparr>"
  from data_record_step [OF v t assms(2)] assms(3)
  have loop1: "scan_loop (end_pos_of x) ?s1 = Inr t" by simp
  have fit: "pos s + 1 + 0 + field_offset ?fs k + ?sz \<le> length (data s)"
    using assms(5) r(1) by simp
  note val = patch_fields_values [OF assms(4) fit, of ?g]
  have kt: "length (data t) = length x" using scan_of_keeps(1) [OF v t] .
  have keep: "y ! i = data ?s1 ! i" if "?q \<le> i" "i < ?q + ?sz" for i
  proof -
    from that field_offset_le [OF assms(4)] have "i \<le> pos ?s1" by simp
    with scan_loop_keeps [OF loop1] have a: "data t ! i = data ?s1 ! i" by blast
    from that assms(5) r(2) kt have "i < length (data t) - 2" "8 \<le> i" by arith+
    with finish_result(2) [OF f] kt len have "y ! i = data t ! i" by simp
    with a show ?thesis by simp
  qed
  have two: "unpack_H y ?q = unpack_H (data ?s1) ?q" if "?sz = 2"
    using keep [of ?q] keep [of "?q + 1"] that by (simp add: unpack_H_def)
  from val two show ?thesis by auto
qed

lemma modify_manufacturer_binary_convert:
  assumes "modify_manufacturer_binary d m = Inr y"
  shows "convert_fit d = Inr y"
proof -
  have "d \<noteq> []" using assms by (auto simp: modify_manufacturer_binary_def)
  moreover have "modify_manufacturer_binary d 260 = modify_manufacturer_binary d m"
    by (simp add: modify_manufacturer_binary_def)
  ultimately show ?thesis using assms by (simp add: convert_fit_def)
qed

text \<open>
  C10. The parameter \<open>new_manufacturer\<close> of \<open>_modify_manufacturer_binary\<close> has no
  effect: any two values give the same result, and \<open>convert_fit\<close>, which passes 260,
  returns what any other value would give. Whatever the value passed, the manufacturer
  written is the literal 1: in the returned buffer every manufacturer field, (1, size 2)
  of a file_id and (2, size 2) of a device_info data record that the scan passed, lying
  before the trailer, reads 1 as a little-endian u16.
\<close>

theorem new_manufacturer_ignored:
  "modify_manufacturer_binary d m1 = modify_manufacturer_binary d m2
   \<and> convert_fit d =
       (if d = [] then Inl Data_empty
        else case modify_manufacturer_binary d m1 of
               Inl e \<Rightarrow> Inl (Failed_to_convert e)
             | Inr y \<Rightarrow> Inr y)
   \<and> (\<forall>y n s df k.
         modify_manufacturer_binary d m1 = Inr y
         \<and> data_record_at d n s df
         \<and> (global_msg_num df = 0 \<or> global_msg_num df = 23)
         \<and> k < length (msg_fields df)
         \<and> manufacturer_field (global_msg_num df) (msg_fields df ! k)
         \<and> pos s + 1 + field_offset (msg_fields df) k + 2 \<le> length d - 2
       \<longrightarrow> unpack_H y (pos s + 1 + field_offset (msg_fields df) k) = 1)"
proof -
  have a: "modify_manufacturer_binary d m1 = modify_manufacturer_binary d m2"
    by (simp add: modify_manufacturer_binary_def)
  have b: "convert_fit d =
       (if d = [] then Inl Data_empty
        else case modify_manufacturer_binary d m1 of
               Inl e \<Rightarrow> Inl (Failed_to_convert e)
             | Inr y \<Rightarrow> Inr y)"
    by (simp add: modify_manufacturer_binary_def convert_fit_def)
  have c: "unpack_H y (pos s + 1 + field_offset (msg_fields df) k) = 1"
    if h: "modify_manufacturer_binary d m1 = Inr y" "data_record_at d n s df"
      "global_msg_num df = 0 \<or> global_msg_num df = 23" "k < length (msg_fields df)"
      "manufacturer_field (global_msg_num df) (msg_fields df ! k)"
      "pos s + 1 + field_offset (msg_fields df) k + 2 \<le> length d - 2"
    for y n s df k
  proof -
    from h(5) have sz: "fst (snd (msg_fields df ! k)) = 2"
      and num: "global_msg_num df = 0 \<and> fst (msg_fields df ! k) = 1
          \<or> global_msg_num df \<noteq> 0 \<and> fst (msg_fields df ! k) = 2"
      by (simp_all add: manufacturer_field_def)
    from h(6) sz
    have fit: "pos s + 1 + field_offset (msg_fields df) k + fst (snd (msg_fields df ! k))
        \<le> length d - 2" by simp
    from passed_field_values [OF modify_manufacturer_binary_convert [OF h(1)] h(2,3,4) fit]
      sz num h(3)
    show ?thesis by auto
  qed
  from a b c show ?thesis by blast
qed

text \<open>
  A file whose only message is a device_info (global message 23) with manufacturer 32
  and product 0.
\<close>

definition device_info_only :: bytes where
  "device_info_only =
     [12, 0, 0, 0, 17, 0, 0, 0, 0x2E, 0x46, 0x49, 0x54,
      0x40, 0, 0, 23, 0, 2, 2, 2, 0x84, 4, 2, 0x84,
      0x00, 32, 0, 0, 0,
      0, 0]"

definition device_info_only_converted :: bytes where
  "device_info_only_converted =
     [12, 16, 86, 8, 33, 0, 0, 0, 46, 70, 73, 84,
      64, 0, 0, 23, 0, 2, 2, 2, 132, 4, 2, 132,
      0, 1, 0, 50, 12,
      71, 0, 0, 49, 0, 2, 0, 2, 132, 1, 1, 2, 7, 207, 3, 255,
      208, 151]"

definition device_info_only_defined :: scan_state where
  "device_info_only_defined =
     \<lparr>data = [12, 16, 86, 8, 17, 0, 0, 0, 46, 70, 73, 84,
              64, 0, 0, 23, 0, 2, 2, 2, 132, 4, 2, 132,
              0, 32, 0, 0, 0,
              0, 0],
      pos = 24,
      local_definitions =
        [0 \<mapsto> \<lparr>global_msg_num = 23, msg_fields = [(2, 2, 132), (4, 2, 132)]\<rparr>],
      manufacturer_changed = False,
      file_creator_found = False\<rparr>"

definition device_info_definition :: message_def where
  "device_info_definition = \<lparr>global_msg_num = 23, msg_fields = [(2, 2, 132), (4, 2, 132)]\<rparr>"

lemma modify_device_info_only:
  "modify_manufacturer_binary device_info_only 260 = Inr device_info_only_converted"
  by (simp add: device_info_only_def device_info_only_converted_def run_simps
      del: read_fields.simps)

lemma modify_file_id_only:
  "modify_manufacturer_binary file_id_only 260 = Inr file_id_only_converted"
  using convert_file_id_only
  by (simp add: convert_fit_def file_id_only_def split: sum.splits)

lemma reach_device_info_only:
  "data_record_at device_info_only 1 device_info_only_defined device_info_definition"
  by (simp add: data_record_at_def device_info_only_def device_info_only_defined_def
      device_info_definition_def definition_header_def bound_definition_def
      scan_steps_unfold scan_simps del: read_fields.simps scan_steps.simps)

theorem new_manufacturer_ignored_witness:
  "modify_manufacturer_binary device_info_only 260 = Inr device_info_only_converted
   \<and> data_record_at device_info_only 1 device_info_only_defined device_info_definition
   \<and> global_msg_num device_info_definition = 23
   \<and> manufacturer_field 23 (msg_fields device_info_definition ! 0)
   \<and> pos device_info_only_defined + 1 + field_offset (msg_fields device_info_definition) 0
       = 25
   \<and> unpack_H device_info_only_converted 25 = 1
   \<and> modify_manufacturer_binary file_id_only 260 = Inr file_id_only_converted
   \<and> data_record_at file_id_only 1 file_id_only_defined file_id_definition
   \<and> manufacturer_field 0 (msg_fields file_id_definition ! 1)
   \<and> pos file_id_only_defined + 1 + field_offset (msg_fields file_id_definition) 1 = 29
   \<and> unpack_H file_id_only_converted 29 = 1"
proof -
  note th = new_manufacturer_ignored [THEN conjunct2, THEN conjunct2, rule_format]
  let ?dd = device_info_definition and ?ds = device_info_only_defined
  have dg: "global_msg_num ?dd = 23" and dk: "0 < length (msg_fields ?dd)"
    and dm: "manufacturer_field 23 (msg_fields ?dd ! 0)"
    by (simp_all add: device_info_definition_def manufacturer_field_def)
  have dq: "pos ?ds + 1 + field_offset (msg_fields ?dd) 0 = 25"
    by (simp add: device_info_only_defined_def)
  have dfit: "pos ?ds + 1 + field_offset (msg_fields ?dd) 0 + 2 \<le> length device_info_only - 2"
    unfolding dq by (simp add: device_info_only_def)
  have d: "unpack_H device_info_only_converted 25 = 1"
    using th [of device_info_only 260 device_info_only_converted 1 ?ds ?dd 0]
      modify_device_info_only reach_device_info_only dg dk dm dfit dq by simp
  let ?fd = file_id_definition and ?fs = file_id_only_defined
  have fg: "global_msg_num ?fd = 0" and fk: "1 < length (msg_fields ?fd)"
    and fm: "manufacturer_field 0 (msg_fields ?fd ! 1)"
    by (simp_all add: file_id_definition_def manufacturer_field_def)
  have fq: "pos ?fs + 1 + field_offset (msg_fields ?fd) 1 = 29"
    by (simp add: file_id_definition_def file_id_only_defined_def field_offset_def)
  have ffit: "pos ?fs + 1 + field_offset (msg_fields ?fd) 1 + 2 \<le> length file_id_only - 2"
    unfolding fq by (simp add: file_id_only_def)
  have fr: "data_record_at file_id_only 1 ?fs ?fd"
    using reach_file_id_only by (simp add: data_record_at_def)
  have f: "unpack_H file_id_only_converted 29 = 1"
    using th [of file_id_only 260 file_id_only_converted 1 ?fs ?fd 1]
      modify_file_id_only fr fg fk fm ffit fq by simp
  from d f modify_device_info_only reach_device_info_only dg dm dq modify_file_id_only fr fm fq
  show ?thesis by simp
qed

end
